theory Spec2Isabelle
  imports Main "HOL-Library.Multiset"
begin

section \<open>The test scheduler of gtest.py\<close>

text \<open>
  The development embeds \<^verbatim>\<open>GTestManager._schedule_tests\<close> and
  \<^verbatim>\<open>GTestManager._run_test\<close> of \<^verbatim>\<open>src/gtest.py\<close>. Several
  worker threads execute \<^verbatim>\<open>_schedule_tests\<close> at once, so the program is a
  transition system: the shared attributes of the manager and the operating-system
  state it touches form one record, every worker thread has a record of its local
  variables and a program point, and one transition executes one statement (or one
  block under \<^verbatim>\<open>with self.LOCK\<close>, which no other such block can interleave).
\<close>

subsection \<open>Data\<close>

text \<open>The tuple \<^verbatim>\<open>(test_name, cmd, working_dir, retry)\<close> of line 223.\<close>

record test =
  test_name :: string
  cmd :: string
  working_dir :: string
  retry :: int

text \<open>The strings \<^verbatim>\<open>'Passed'\<close>, \<^verbatim>\<open>'Killed'\<close>, \<^verbatim>\<open>'Failed'\<close> of line 247.\<close>

datatype status = Passed | Killed | Failed

text \<open>A row of \<^verbatim>\<open>self.results\<close>, columns Test, Status, Time, Log.\<close>

record row =
  row_test :: string
  row_status :: status
  row_time :: nat
  row_log :: string

datatype py_error = IndexError | ValueError | FileNotFoundError

text \<open>
  Program points of a worker thread, named after what the statement at that point does:
  lines 260, 263, 266--272, 274--278 of \<^verbatim>\<open>_schedule_tests\<close>, lines 225--226,
  228, 229--232, 234--235, 236--238, 240, the exit of the \<^verbatim>\<open>with Popen\<close>
  block, reached normally (\<open>AtReap\<close>) or with a pending exception (\<open>AtReapRaise\<close>),
  lines 242--244 and 246--253 of \<^verbatim>\<open>_run_test\<close>, lines 281--282, the end of the
  function, an exception raised by a statement of \<^verbatim>\<open>_schedule_tests\<close> itself
  (\<open>Raised\<close>), and an exception that has left \<^verbatim>\<open>_run_test\<close> (\<open>RunRaised\<close>); either
  ends the thread.
\<close>

datatype pc =
    AtInterruptCheck
  | AtEmptyCheck
  | AtClaim
  | AtCandidateCheck
  | AtPut
  | AtMkdir
  | AtChdir
  | AtLaunch
  | AtLaunchCheck
  | AtWait
  | AtReap
  | AtReapRaise
  | AtRetryCheck
  | AtRecord
  | AtRelease
  | Stopped
  | Raised
  | RunRaised

text \<open>
  The local variables of one thread: \<^verbatim>\<open>running_groups\<close>, \<^verbatim>\<open>test_group\<close> and
  \<^verbatim>\<open>test_candidate\<close> of \<^verbatim>\<open>_schedule_tests\<close> (lines 256, 257, 266), and the
  parameter \<^verbatim>\<open>test\<close> and the locals \<^verbatim>\<open>start\<close> and \<^verbatim>\<open>ret\<close> of the innermost
  call of \<^verbatim>\<open>_run_test\<close>. A retry is a recursive call after which every caller
  returns at once (lines 243--244), so only the innermost frame is ever read.
\<close>

record worker =
  pc :: pc
  running_groups :: "string list"
  test_group :: "string option"
  test_candidate :: "test option"
  test :: test
  start :: nat
  ret :: int

text \<open>
  The shared state: the module constant \<^verbatim>\<open>ISWINDOWS\<close> (line 21), the class
  attribute \<^verbatim>\<open>INTERRUPT\<close>, the queues \<^verbatim>\<open>_tests\<close> and \<^verbatim>\<open>_running_tests\<close>, the
  counter \<^verbatim>\<open>_finished\<close> and the table \<^verbatim>\<open>results\<close>; of the operating system, the
  current working directory of the process (an absolute path), the directories that
  exist and the files opened for writing (both by their absolute paths), the commands
  launched (with the directory the child starts in, which is the current one of the
  process, \<^verbatim>\<open>Popen\<close> being given none) and the calls of \<^verbatim>\<open>send_signal\<close>, each
  tagged with the index of the worker, and a clock in milliseconds; and the workers.
\<close>

record gtm =
  ISWINDOWS :: bool
  INTERRUPT :: bool
  tests :: "test list"
  running_tests :: "string list"
  finished :: nat
  results :: "row list"
  cwd :: string
  dirs :: "string set"
  files :: "string \<rightharpoonup> string"
  procs :: "(nat \<times> string \<times> string) list"
  signals :: "(nat \<times> int) list"
  clock :: nat
  workers :: "worker list"

subsection \<open>Pure parts\<close>

definition SIGINT :: int where
  "SIGINT = 2"

text \<open>\<^verbatim>\<open>name.split('.')[0]\<close>: the text before the first dot, the whole name without one.\<close>

definition group_of :: "string \<Rightarrow> string" where
  "group_of n = takeWhile (\<lambda>c. c \<noteq> CHR ''.'') n"

text \<open>\<^verbatim>\<open>working_dir / 'run.log'\<close> (line 230).\<close>

definition log_of :: "string \<Rightarrow> string" where
  "log_of d = d @ ''/run.log''"

text \<open>
  Paths are strings with \<open>/\<close> between their parts, as \<^verbatim>\<open>as_posix()\<close> prints
  them, without \<open>.\<close> and \<open>..\<close> parts and without symbolic links. A path is absolute
  when it starts at the root, on Windows at the root of a drive (network shares are
  left out). The operating system resolves a relative path against the current
  working directory of the process.
\<close>

definition is_absolute :: "bool \<Rightarrow> string \<Rightarrow> bool" where
  "is_absolute win p =
     (if win then (case p of d # c # r # _ \<Rightarrow> c = CHR '':'' \<and> r = CHR ''/'' | _ \<Rightarrow> False)
      else (case p of c # _ \<Rightarrow> c = CHR ''/'' | [] \<Rightarrow> False))"

definition join_path :: "string \<Rightarrow> string \<Rightarrow> string" where
  "join_path a b = (if a \<noteq> [] \<and> last a = CHR ''/'' then a @ b else a @ ''/'' @ b)"

definition resolve :: "bool \<Rightarrow> string \<Rightarrow> string \<Rightarrow> string" where
  "resolve win c p = (if is_absolute win p then p else join_path c p)"

text \<open>
  The directories that \<^verbatim>\<open>mkdir(parents=True, exist_ok=True)\<close> makes sure of: the
  path and every prefix of it that ends before a \<open>/\<close>.
\<close>

definition parents_of :: "string \<Rightarrow> string list" where
  "parents_of p =
     filter (\<lambda>a. a \<noteq> [])
       (map (\<lambda>i. take i p) (filter (\<lambda>i. p ! i = CHR ''/'') [0..<length p])) @ [p]"

text \<open>Line 247.\<close>

definition status_of :: "int \<Rightarrow> status" where
  "status_of r = (if r = 0 then Passed else if r = - SIGINT then Killed else Failed)"

text \<open>
  The \<^verbatim>\<open>for\<close> loop of lines 268--272 with \<open>n\<close> iterations left. Every iteration
  reads \<^verbatim>\<open>self._tests.queue[0]\<close>, which raises IndexError on an empty queue; a
  candidate whose group is not in the list is taken off the queue and ends the loop,
  any other stays in \<^verbatim>\<open>test_candidate\<close> and the next iteration reads the front again.
\<close>

fun claim_loop :: "nat \<Rightarrow> test list \<Rightarrow> string list \<Rightarrow> test option
    \<Rightarrow> py_error + (test option \<times> test list)" where
  "claim_loop 0 q rg c = Inr (c, q)"
| "claim_loop (Suc n) [] rg c = Inl IndexError"
| "claim_loop (Suc n) (t # q) rg c =
     (if group_of (test_name t) \<notin> set rg then Inr (Some t, q)
      else claim_loop n (t # q) rg (Some t))"

text \<open>
  \<^verbatim>\<open>running_groups.remove(test_group)\<close>: the first occurrence goes; ValueError
  when there is none (\<^verbatim>\<open>test_group\<close> may be \<^verbatim>\<open>None\<close>, which no list of
  strings holds).
\<close>

definition list_remove :: "string option \<Rightarrow> string list \<Rightarrow> py_error + string list" where
  "list_remove g xs =
     (case g of
        None \<Rightarrow> Inl ValueError
      | Some x \<Rightarrow> if x \<in> set xs then Inr (remove1 x xs) else Inl ValueError)"

subsection \<open>Transitions\<close>

definition put_worker :: "nat \<Rightarrow> worker \<Rightarrow> gtm \<Rightarrow> gtm" where
  "put_worker w k s = s\<lparr>workers := (workers s)[w := k]\<rparr>"

text \<open>
  One statement of worker \<open>w\<close>, whose locals are \<open>k\<close>. At \<open>AtWait\<close> the thread is
  blocked in \<^verbatim>\<open>process.wait()\<close> and at \<open>AtReap\<close> in the wait that leaving the
  \<^verbatim>\<open>with subprocess.Popen\<close> block performs; at \<open>AtRecord\<close> it is blocked in
  \<^verbatim>\<open>self._running_tests.get()\<close> while that queue is empty.

  \<^verbatim>\<open>os.chdir\<close> raises FileNotFoundError when the directory that its argument
  resolves to does not exist, and so does \<^verbatim>\<open>open(log, 'w')\<close> when the directory of
  the log does not; then nothing is launched. On Windows \<^verbatim>\<open>Popen.send_signal\<close>
  raises ValueError for SIGINT; the exception leaves the \<^verbatim>\<open>with Popen\<close> block,
  whose exit waits for the child first. Elsewhere \<^verbatim>\<open>send_signal\<close> is recorded as
  called (it delivers the signal if the child has not ended yet).

  Left out: terminal output (\<^verbatim>\<open>__progress\<close>), other failures of the operating
  system (permissions, a file where a directory is expected, a command that cannot be
  started) and the recursion limit of Python.
\<close>

fun tick_at :: "pc \<Rightarrow> nat \<Rightarrow> worker \<Rightarrow> gtm \<Rightarrow> gtm" where
  "tick_at AtInterruptCheck w k s =
     put_worker w (k\<lparr>pc := if INTERRUPT s then Stopped else AtEmptyCheck\<rparr>) s"
| "tick_at AtEmptyCheck w k s =
     put_worker w (k\<lparr>pc := if tests s = [] then Stopped else AtClaim\<rparr>) s"
| "tick_at AtClaim w k s =
     (case claim_loop (length (tests s)) (tests s) (running_groups k) None of
        Inl e \<Rightarrow> put_worker w (k\<lparr>pc := Raised\<rparr>) s
      | Inr (c, q) \<Rightarrow>
          put_worker w (k\<lparr>test_candidate := c, pc := AtCandidateCheck\<rparr>) (s\<lparr>tests := q\<rparr>))"
| "tick_at AtCandidateCheck w k s =
     (case test_candidate k of
        None \<Rightarrow> put_worker w (k\<lparr>pc := Stopped\<rparr>) s
      | Some t \<Rightarrow>
          put_worker w
            (k\<lparr>test_group := Some (group_of (test_name t)),
               running_groups := running_groups k @ [group_of (test_name t)],
               test := t, pc := AtPut\<rparr>) s)"
| "tick_at AtPut w k s =
     put_worker w (k\<lparr>pc := AtMkdir\<rparr>)
       (s\<lparr>running_tests := running_tests s @ [test_name (test k)]\<rparr>)"
| "tick_at AtMkdir w k s =
     put_worker w (k\<lparr>pc := AtChdir\<rparr>)
       (s\<lparr>dirs := dirs s \<union>
            set (parents_of (resolve (ISWINDOWS s) (cwd s) (working_dir (test k))))\<rparr>)"
| "tick_at AtChdir w k s =
     (if resolve (ISWINDOWS s) (cwd s) (working_dir (test k)) \<in> dirs s
      then put_worker w (k\<lparr>start := clock s, ret := 0, pc := AtLaunch\<rparr>)
             (s\<lparr>cwd := resolve (ISWINDOWS s) (cwd s) (working_dir (test k))\<rparr>)
      else put_worker w (k\<lparr>pc := RunRaised\<rparr>) s)"
| "tick_at AtLaunch w k s =
     (if resolve (ISWINDOWS s) (cwd s) (working_dir (test k)) \<in> dirs s
      then put_worker w (k\<lparr>pc := AtLaunchCheck\<rparr>)
             (s\<lparr>files := (files s)
                  (resolve (ISWINDOWS s) (cwd s) (log_of (working_dir (test k))) \<mapsto> []),
                procs := procs s @ [(w, cmd (test k), cwd s)]\<rparr>)
      else put_worker w (k\<lparr>pc := RunRaised\<rparr>) s)"
| "tick_at AtLaunchCheck w k s =
     (if INTERRUPT s
      then (if ISWINDOWS s then put_worker w (k\<lparr>pc := AtReapRaise\<rparr>) s
            else put_worker w (k\<lparr>ret := - SIGINT, pc := AtReap\<rparr>)
                   (s\<lparr>signals := signals s @ [(w, SIGINT)]\<rparr>))
      else put_worker w (k\<lparr>pc := AtWait\<rparr>) s)"
| "tick_at AtWait w k s = s"
| "tick_at AtReap w k s = s"
| "tick_at AtReapRaise w k s = s"
| "tick_at AtRetryCheck w k s =
     (if ret k \<noteq> 0 \<and> retry (test k) > 0 \<and> \<not> INTERRUPT s
      then put_worker w (k\<lparr>test := (test k)\<lparr>retry := retry (test k) - 1\<rparr>, pc := AtPut\<rparr>) s
      else put_worker w (k\<lparr>pc := AtRecord\<rparr>) s)"
| "tick_at AtRecord w k s =
     (case running_tests s of
        [] \<Rightarrow> s
      | x # rt \<Rightarrow>
          put_worker w (k\<lparr>pc := AtRelease\<rparr>)
            (s\<lparr>running_tests := rt, finished := finished s + 1,
               results := results s @
                 [\<lparr>row_test = test_name (test k), row_status = status_of (ret k),
                   row_time = clock s - start k,
                   row_log = log_of (working_dir (test k))\<rparr>]\<rparr>))"
| "tick_at AtRelease w k s =
     (if running_groups k \<noteq> []
      then (case list_remove (test_group k) (running_groups k) of
              Inl e \<Rightarrow> put_worker w (k\<lparr>pc := Raised\<rparr>) s
            | Inr rg \<Rightarrow> put_worker w (k\<lparr>running_groups := rg, pc := AtInterruptCheck\<rparr>) s)
      else put_worker w (k\<lparr>pc := AtInterruptCheck\<rparr>) s)"
| "tick_at Stopped w k s = s"
| "tick_at Raised w k s = s"
| "tick_at RunRaised w k s = s"

text \<open>
  The child process of worker \<open>w\<close> ends with exit code \<open>rc\<close>: \<^verbatim>\<open>process.wait()\<close>
  returns it (line 240); the wait at the end of the \<^verbatim>\<open>with\<close> block returns too,
  and there the code is dropped, \<^verbatim>\<open>ret\<close> having been assigned at line 238, or
  the pending exception leaves \<^verbatim>\<open>_run_test\<close>.
\<close>

definition wait_returns :: "nat \<Rightarrow> int \<Rightarrow> gtm \<Rightarrow> gtm" where
  "wait_returns w rc s =
     (if w < length (workers s)
      then (let k = workers s ! w in
            if pc k = AtWait then put_worker w (k\<lparr>ret := rc, pc := AtRetryCheck\<rparr>) s
            else if pc k = AtReap then put_worker w (k\<lparr>pc := AtRetryCheck\<rparr>) s
            else if pc k = AtReapRaise then put_worker w (k\<lparr>pc := RunRaised\<rparr>) s
            else s)
      else s)"

text \<open>
  What can happen next: a worker executes its next statement, a child process ends,
  \<^verbatim>\<open>INTERRUPT.set()\<close> is called (line 324), time passes.
\<close>

datatype event = Tick nat | WaitReturns nat int | SetInterrupt | Elapse nat

fun step :: "event \<Rightarrow> gtm \<Rightarrow> gtm" where
  "step (Tick w) s =
     (if w < length (workers s) then tick_at (pc (workers s ! w)) w (workers s ! w) s else s)"
| "step (WaitReturns w rc) s = wait_returns w rc s"
| "step SetInterrupt s = s\<lparr>INTERRUPT := True\<rparr>"
| "step (Elapse n) s = s\<lparr>clock := clock s + n\<rparr>"

definition run :: "event list \<Rightarrow> gtm \<Rightarrow> gtm" where
  "run es s = fold step es s"

text \<open>
  The state in which \<^verbatim>\<open>execute_tests\<close> submits \<open>J\<close> workers (line 318), on the
  platform \<open>win\<close>, in the directory \<open>d\<close>, with the directories \<open>ds\<close> in existence:
  the queue filled by \<^verbatim>\<open>get_test_list\<close>, nothing run yet, every worker before
  line 259 with the initial values of lines 256--257.
\<close>

definition worker0 :: worker where
  "worker0 = \<lparr>pc = AtInterruptCheck, running_groups = [], test_group = None,
     test_candidate = None,
     test = \<lparr>test_name = [], cmd = [], working_dir = [], retry = 0\<rparr>,
     start = 0, ret = 0\<rparr>"

definition init :: "bool \<Rightarrow> nat \<Rightarrow> test list \<Rightarrow> string \<Rightarrow> string set \<Rightarrow> gtm" where
  "init win J q d ds = \<lparr>ISWINDOWS = win, INTERRUPT = False, tests = q, running_tests = [],
     finished = 0, results = [], cwd = d, dirs = ds, files = Map.empty, procs = [],
     signals = [], clock = 0, workers = replicate J worker0\<rparr>"


text \<open>
  The tuple that \<^verbatim>\<open>get_test_list\<close> puts on the queue for a listed test (lines
  301--308, no extra options given): its name, the command running the binary with
  that one test as the filter, its directory under the output directory, and the
  retry count of the options.
\<close>

definition listed :: "string \<Rightarrow> string \<Rightarrow> int \<Rightarrow> string \<Rightarrow> test" where
  "listed gtest output r n =
     \<lparr>test_name = n,
      cmd = CHR 0x22 # gtest @ CHR 0x22 # '' --gtest_filter='' @ n,
      working_dir = output @ ''/'' @ n,
      retry = r\<rparr>"

subsection \<open>Observations on states and runs\<close>

text \<open>
  A worker whose child process has been launched and not yet been waited for, and the
  groups of the cases so executing, one entry per worker.
\<close>

definition executing :: "worker \<Rightarrow> bool" where
  "executing k = (pc k \<in> {AtLaunchCheck, AtWait, AtReap, AtReapRaise})"

definition groups_executing :: "gtm \<Rightarrow> string list" where
  "groups_executing s =
     map (\<lambda>k. group_of (test_name (test k))) (filter executing (workers s))"

text \<open>The groups some worker has in its \<^verbatim>\<open>running_groups\<close>.\<close>

definition groups_held :: "gtm \<Rightarrow> string list" where
  "groups_held s = concat (map running_groups (workers s))"

text \<open>
  The claim protocol in the words of the specification, for comparison with lines
  266--278: scan the queue from its front; the first case whose group is not active
  leaves the queue, its group becomes active, and the case is returned; with no such
  case the result is \<open>None\<close> and nothing changes.
\<close>

fun claimNext_spec :: "test list \<Rightarrow> string list \<Rightarrow> test option \<times> test list \<times> string list" where
  "claimNext_spec [] active = (None, [], active)"
| "claimNext_spec (t # q) active =
     (if group_of (test_name t) \<notin> set active
      then (Some t, q, active @ [group_of (test_name t)])
      else (case claimNext_spec q active of (r, q', a') \<Rightarrow> (r, t # q', a')))"

text \<open>
  The name of the case a worker has taken off the queue and not recorded (not yet, or
  never, an exception having left \<^verbatim>\<open>_run_test\<close>); the multiset of these names
  over all workers.
\<close>

definition holds_case :: "worker \<Rightarrow> string list" where
  "holds_case k =
     (if pc k = AtCandidateCheck
      then (case test_candidate k of None \<Rightarrow> [] | Some t \<Rightarrow> [test_name t])
      else if pc k \<in> {AtPut, AtMkdir, AtChdir, AtLaunch, AtLaunchCheck, AtWait, AtReap,
                       AtReapRaise, AtRetryCheck, AtRecord, RunRaised}
      then [test_name (test k)]
      else [])"

definition cases_in_flight :: "gtm \<Rightarrow> string multiset" where
  "cases_in_flight s = mset (concat (map holds_case (workers s)))"

text \<open>
  What the locals of a worker satisfy at each program point: the list of groups is
  empty outside a case and holds exactly the group of the case, which is also
  \<^verbatim>\<open>test_group\<close>, from line 278 to line 282; and no statement of
  \<^verbatim>\<open>_schedule_tests\<close> itself has raised an exception.
\<close>

definition consistent :: "worker \<Rightarrow> bool" where
  "consistent k =
     (if pc k \<in> {AtInterruptCheck, AtEmptyCheck, AtClaim, AtCandidateCheck, Stopped}
      then running_groups k = []
      else pc k \<noteq> Raised \<and>
           running_groups k = [group_of (test_name (test k))] \<and>
           test_group k = Some (group_of (test_name (test k))))"

text \<open>
  A worker that has put the name of its case on the queue of running tests (line 226)
  and has since neither taken an entry off (line 250) nor started a retry (line 243);
  the multiset of the names of the cases of such workers.
\<close>

definition between_put_and_get :: "worker \<Rightarrow> bool" where
  "between_put_and_get k =
     (pc k \<in> {AtMkdir, AtChdir, AtLaunch, AtLaunchCheck, AtWait, AtReap, AtReapRaise,
               AtRetryCheck, AtRecord, RunRaised})"

definition attempts_open :: "gtm \<Rightarrow> string multiset" where
  "attempts_open s =
     mset (map (\<lambda>k. test_name (test k)) (filter between_put_and_get (workers s)))"

text \<open>
  The name that an event puts on the queue of running tests, when the event is the
  first statement of an attempt (line 226); the names so put in a run, in order. The
  name of the case that an event retries, when the event is a retry (line 243); the
  names of the cases retried in a run, in order.
\<close>

definition puts_now :: "event \<Rightarrow> gtm \<Rightarrow> string list" where
  "puts_now e s =
     (case e of
        Tick w \<Rightarrow>
          if w < length (workers s) \<and> pc (workers s ! w) = AtPut
          then [test_name (test (workers s ! w))] else []
      | _ \<Rightarrow> [])"

fun attempts_started :: "event list \<Rightarrow> gtm \<Rightarrow> string list" where
  "attempts_started [] s = []"
| "attempts_started (e # es) s = puts_now e s @ attempts_started es (step e s)"

definition retries_now :: "event \<Rightarrow> gtm \<Rightarrow> string list" where
  "retries_now e s =
     (case e of
        Tick w \<Rightarrow>
          if w < length (workers s) \<and> pc (workers s ! w) = AtRetryCheck \<and>
             ret (workers s ! w) \<noteq> 0 \<and> retry (test (workers s ! w)) > 0 \<and> \<not> INTERRUPT s
          then [test_name (test (workers s ! w))] else []
      | _ \<Rightarrow> [])"

fun retried :: "event list \<Rightarrow> gtm \<Rightarrow> string list" where
  "retried [] s = []"
| "retried (e # es) s = retries_now e s @ retried es (step e s)"




section \<open>Properties\<close>

subsection \<open>Auxiliary facts\<close>

lemma put_worker_simps [simp]:
  "ISWINDOWS (put_worker w k s) = ISWINDOWS s"
  "INTERRUPT (put_worker w k s) = INTERRUPT s"
  "tests (put_worker w k s) = tests s"
  "running_tests (put_worker w k s) = running_tests s"
  "finished (put_worker w k s) = finished s"
  "results (put_worker w k s) = results s"
  "cwd (put_worker w k s) = cwd s"
  "dirs (put_worker w k s) = dirs s"
  "files (put_worker w k s) = files s"
  "procs (put_worker w k s) = procs s"
  "signals (put_worker w k s) = signals s"
  "clock (put_worker w k s) = clock s"
  "workers (put_worker w k s) = (workers s)[w := k]"
  by (simp_all add: put_worker_def)

lemma claim_loop_front:
  "claim_loop n (t # q) rg c =
     Inr (if group_of (test_name t) \<notin> set rg then (if n = 0 then (c, t # q) else (Some t, q))
          else (if n = 0 then c else Some t, t # q))"
  by (induction n arbitrary: c) auto

lemma claim_loop_length:
  "claim_loop (length q) q rg None =
     Inr (case q of [] \<Rightarrow> (None, [])
          | t # q' \<Rightarrow> if group_of (test_name t) \<in> set rg then (Some t, t # q') else (Some t, q'))"
  by (cases q) (simp_all add: claim_loop_front)

lemma run_Nil [simp]: "run [] s = s"
  by (simp add: run_def)

lemma run_Cons [simp]: "run (e # es) s = run es (step e s)"
  by (simp add: run_def)

lemma run_append: "run (es @ fs) s = run fs (run es s)"
  by (simp add: run_def)

lemma run_snoc: "run (es @ [e]) s = step e (run es s)"
  by (simp add: run_append)

lemma list_all_update:
  "list_all P xs \<Longrightarrow> P x \<Longrightarrow> list_all P (xs[i := x])"
  by (induction xs arbitrary: i) (auto split: nat.splits)

lemma list_all_nth: "list_all P xs \<Longrightarrow> i < length xs \<Longrightarrow> P (xs ! i)"
  by (simp add: list_all_length)

lemma length_workers_step [simp]: "length (workers (step e s)) = length (workers s)"
proof (cases e)
  case (Tick w)
  show ?thesis
  proof (cases "w < length (workers s)")
    case True
    then show ?thesis
      using Tick
      by (cases "pc (workers s ! w)")
         (simp_all add: claim_loop_length split: list.splits option.splits sum.splits)
  next
    case False
    then show ?thesis using Tick by simp
  qed
next
  case (WaitReturns w rc)
  then show ?thesis by (simp add: wait_returns_def Let_def)
qed simp_all

lemma length_workers_run [simp]: "length (workers (run es s)) = length (workers s)"
  by (induction es arbitrary: s) simp_all

lemma is_absolute_log_of: "is_absolute win d \<Longrightarrow> is_absolute win (log_of d)"
  by (auto simp: is_absolute_def log_of_def split: list.splits)

lemma resolve_absolute [simp]: "is_absolute win p \<Longrightarrow> resolve win c p = p"
  by (simp add: resolve_def)

lemma self_in_parents_of [simp]: "p \<in> set (parents_of p)"
  by (simp add: parents_of_def)

subsection \<open>The queue of running tests\<close>

lemma attempts_open_split:
  assumes "w < length (workers s)"
  obtains A where
    "attempts_open s =
       A + (if between_put_and_get (workers s ! w)
            then {#test_name (test (workers s ! w))#} else {#})"
    and "\<And>k' (s'::gtm). workers s' = workers s \<Longrightarrow>
           attempts_open (put_worker w k' s') =
             A + (if between_put_and_get k' then {#test_name (test k')#} else {#})"
proof
  let ?ws = "workers s"
  let ?f = "\<lambda>xs. mset (map (\<lambda>k. test_name (test k)) (filter between_put_and_get xs))"
  let ?A = "?f (take w ?ws) + ?f (drop (Suc w) ?ws)"
  have "?ws = take w ?ws @ ?ws ! w # drop (Suc w) ?ws"
    using assms by (rule id_take_nth_drop)
  then have "?f ?ws = ?f (take w ?ws @ ?ws ! w # drop (Suc w) ?ws)"
    by simp
  then show "attempts_open s =
       ?A + (if between_put_and_get (?ws ! w) then {#test_name (test (?ws ! w))#} else {#})"
    by (simp add: attempts_open_def)
  fix k' and s' :: gtm
  assume "workers s' = ?ws"
  then have "workers (put_worker w k' s') = take w ?ws @ k' # drop (Suc w) ?ws"
    using assms by (simp add: upd_conv_take_nth_drop)
  then show "attempts_open (put_worker w k' s') =
       ?A + (if between_put_and_get k' then {#test_name (test k')#} else {#})"
    by (simp add: attempts_open_def)
qed

lemma attempts_open_frame [simp]:
  "attempts_open (s\<lparr>INTERRUPT := a\<rparr>) = attempts_open s"
  "attempts_open (s\<lparr>clock := j\<rparr>) = attempts_open s"
  by (simp_all add: attempts_open_def)

lemma attempts_tick:
  assumes "w < length (workers s)"
  shows "mset (puts_now (Tick w) s) + (mset (map row_test (results s)) + attempts_open s) =
         mset (map row_test (results (step (Tick w) s))) + attempts_open (step (Tick w) s) +
         mset (retries_now (Tick w) s)"
proof -
  obtain A where A: "attempts_open s =
       A + (if between_put_and_get (workers s ! w)
            then {#test_name (test (workers s ! w))#} else {#})"
    and A': "\<And>k' (s'::gtm). workers s' = workers s \<Longrightarrow>
           attempts_open (put_worker w k' s') =
             A + (if between_put_and_get k' then {#test_name (test k')#} else {#})"
    using attempts_open_split [OF assms] by blast
  show ?thesis
  proof (cases "pc (workers s ! w)")
    case AtClaim
    then show ?thesis
      using assms
      by (auto simp: A A' puts_now_def retries_now_def between_put_and_get_def claim_loop_length
          split: list.splits)
  next
    case AtCandidateCheck
    then show ?thesis
      using assms
      by (auto simp: A A' puts_now_def retries_now_def between_put_and_get_def split: option.splits)
  next
    case AtRecord
    then show ?thesis
      using assms
      by (auto simp: A A' puts_now_def retries_now_def between_put_and_get_def split: list.splits)
  next
    case AtRelease
    then show ?thesis
      using assms
      by (auto simp: A A' puts_now_def retries_now_def between_put_and_get_def split: sum.splits)
  next
    case AtWait
    then show ?thesis using assms by (simp add: puts_now_def retries_now_def)
  next
    case AtReap
    then show ?thesis using assms by (simp add: puts_now_def retries_now_def)
  next
    case AtReapRaise
    then show ?thesis using assms by (simp add: puts_now_def retries_now_def)
  next
    case Stopped
    then show ?thesis using assms by (simp add: puts_now_def retries_now_def)
  next
    case Raised
    then show ?thesis using assms by (simp add: puts_now_def retries_now_def)
  next
    case RunRaised
    then show ?thesis using assms by (simp add: puts_now_def retries_now_def)
  qed (use assms in \<open>auto simp: A A' puts_now_def retries_now_def between_put_and_get_def\<close>)
qed

lemma attempts_step:
  "mset (puts_now e s) + (mset (map row_test (results s)) + attempts_open s) =
   mset (map row_test (results (step e s))) + attempts_open (step e s) +
   mset (retries_now e s)"
proof (cases e)
  case (Tick w)
  then show ?thesis
    using attempts_tick [of w s]
    by (cases "w < length (workers s)") (simp_all add: puts_now_def retries_now_def)
next
  case (WaitReturns w rc)
  show ?thesis
  proof (cases "w < length (workers s)")
    case True
    obtain A where A: "attempts_open s =
         A + (if between_put_and_get (workers s ! w)
              then {#test_name (test (workers s ! w))#} else {#})"
      and A': "\<And>k' (s'::gtm). workers s' = workers s \<Longrightarrow>
             attempts_open (put_worker w k' s') =
               A + (if between_put_and_get k' then {#test_name (test k')#} else {#})"
      using attempts_open_split [OF True] by blast
    show ?thesis
      using WaitReturns True
      by (auto simp: wait_returns_def Let_def A A' puts_now_def retries_now_def
          between_put_and_get_def)
  next
    case False
    then show ?thesis
      using WaitReturns by (simp add: wait_returns_def puts_now_def retries_now_def)
  qed
qed (simp_all add: puts_now_def retries_now_def)

lemma attempts_run:
  "mset (attempts_started es s) + (mset (map row_test (results s)) + attempts_open s) =
   mset (map row_test (results (run es s))) + attempts_open (run es s) + mset (retried es s)"
proof (induction es arbitrary: s)
  case Nil
  then show ?case by simp
next
  case (Cons e es)
  let ?s1 = "step e s"
  have st: "mset (puts_now e s) + (mset (map row_test (results s)) + attempts_open s) =
      mset (map row_test (results ?s1)) + attempts_open ?s1 + mset (retries_now e s)"
    by (rule attempts_step)
  have ih: "mset (attempts_started es ?s1) +
        (mset (map row_test (results ?s1)) + attempts_open ?s1) =
      mset (map row_test (results (run es ?s1))) + attempts_open (run es ?s1) +
        mset (retried es ?s1)"
    by (rule Cons.IH)
  have "mset (attempts_started (e # es) s) + (mset (map row_test (results s)) + attempts_open s)
      = mset (attempts_started es ?s1) +
        (mset (puts_now e s) + (mset (map row_test (results s)) + attempts_open s))"
    by (simp add: ac_simps)
  also have "\<dots> = mset (attempts_started es ?s1) +
        (mset (map row_test (results ?s1)) + attempts_open ?s1 + mset (retries_now e s))"
    by (simp only: st)
  also have "\<dots> = (mset (attempts_started es ?s1) +
        (mset (map row_test (results ?s1)) + attempts_open ?s1)) + mset (retries_now e s)"
    by (simp add: ac_simps)
  also have "\<dots> = (mset (map row_test (results (run es ?s1))) + attempts_open (run es ?s1) +
        mset (retried es ?s1)) + mset (retries_now e s)"
    by (simp only: ih)
  also have "\<dots> = mset (map row_test (results (run (e # es) s))) +
        attempts_open (run (e # es) s) + mset (retried (e # es) s)"
    by (simp add: ac_simps)
  finally show ?case .
qed

lemma queue_tick:
  assumes "w < length (workers s)"
  shows "\<exists>n. results (step (Tick w) s) = results s @ n \<and>
             length n \<le> length (running_tests s) \<and>
             running_tests (step (Tick w) s) =
               drop (length n) (running_tests s @ puts_now (Tick w) s)"
  using assms
  by (cases "pc (workers s ! w)")
     (auto simp: puts_now_def claim_loop_length split: list.splits option.splits sum.splits)

lemma queue_step:
  "\<exists>n. results (step e s) = results s @ n \<and>
       length n \<le> length (running_tests s) \<and>
       running_tests (step e s) = drop (length n) (running_tests s @ puts_now e s)"
proof (cases e)
  case (Tick w)
  then show ?thesis
    using queue_tick [of w s] by (cases "w < length (workers s)") (simp_all add: puts_now_def)
next
  case (WaitReturns w rc)
  then show ?thesis by (simp add: wait_returns_def Let_def puts_now_def)
qed (simp_all add: puts_now_def)

lemma queue_run:
  "\<exists>n. results (run es s) = results s @ n \<and>
       running_tests (run es s) = drop (length n) (running_tests s @ attempts_started es s)"
proof (induction es arbitrary: s)
  case Nil
  then show ?case by simp
next
  case (Cons e es)
  obtain n where n: "results (step e s) = results s @ n"
    "length n \<le> length (running_tests s)"
    "running_tests (step e s) = drop (length n) (running_tests s @ puts_now e s)"
    using queue_step [of e s] by blast
  obtain m where m: "results (run es (step e s)) = results (step e s) @ m"
    "running_tests (run es (step e s)) =
       drop (length m) (running_tests (step e s) @ attempts_started es (step e s))"
    using Cons.IH [of "step e s"] by blast
  have "running_tests (run (e # es) s) =
      drop (length (n @ m)) (running_tests s @ attempts_started (e # es) s)"
    using n m by (simp add: add.commute)
  moreover have "results (run (e # es) s) = results s @ (n @ m)"
    using n m by simp
  ultimately show ?case by blast
qed

lemma attempts_open_init: "attempts_open (init win J q d ds) = {#}"
  by (simp add: attempts_open_def init_def between_put_and_get_def worker0_def)

lemma queue_of_init:
  "running_tests (run es (init win J q d ds)) =
     drop (length (results (run es (init win J q d ds))))
       (attempts_started es (init win J q d ds)) \<and>
   mset (attempts_started es (init win J q d ds)) =
     mset (map row_test (results (run es (init win J q d ds)))) +
     attempts_open (run es (init win J q d ds)) +
     mset (retried es (init win J q d ds)) \<and>
   length (running_tests (run es (init win J q d ds))) =
     size (attempts_open (run es (init win J q d ds))) +
     length (retried es (init win J q d ds))"
proof -
  let ?I = "init win J q d ds"
  have I: "results ?I = []" "running_tests ?I = []"
    by (simp_all add: init_def)
  obtain n where n: "results (run es ?I) = results ?I @ n"
    "running_tests (run es ?I) = drop (length n) (running_tests ?I @ attempts_started es ?I)"
    using queue_run [of es ?I] by blast
  have a: "running_tests (run es ?I) = drop (length (results (run es ?I))) (attempts_started es ?I)"
    using n I by simp
  have b: "mset (attempts_started es ?I) =
     mset (map row_test (results (run es ?I))) + attempts_open (run es ?I) + mset (retried es ?I)"
    using attempts_run [of es ?I] I by (simp add: attempts_open_init)
  have "length (attempts_started es ?I) =
     length (results (run es ?I)) + size (attempts_open (run es ?I)) + length (retried es ?I)"
    using arg_cong [OF b, of size] by simp
  then have c: "length (running_tests (run es ?I)) =
     size (attempts_open (run es ?I)) + length (retried es ?I)"
    using a by simp
  show ?thesis
    using a b c by blast
qed

text \<open>
  Claim C10, as stated, at a concrete run. One worker runs \<open>A.t1\<close>, which fails
  once and passes on its retry, and then \<open>B.t1\<close>, which passes at once; both were
  queued with one retry. The one \<^verbatim>\<open>get\<close> of \<open>A.t1\<close> leaves one of its two
  entries; the \<^verbatim>\<open>get\<close> of \<open>B.t1\<close> takes the front entry, which is that of
  \<open>A.t1\<close>. So the case that was never retried leaves one entry of its name, and the
  case retried once leaves none.
\<close>

theorem stale_entry_of_another_case:
  "running_tests
     (run (replicate 9 (Tick 0) @ [WaitReturns 0 1, Tick 0] @ replicate 5 (Tick 0) @
           [WaitReturns 0 0, Tick 0, Tick 0, Tick 0] @ replicate 9 (Tick 0) @
           [WaitReturns 0 0, Tick 0, Tick 0, Tick 0])
        (init False 1 [listed ''bin'' ''/out'' 1 ''A.t1'', listed ''bin'' ''/out'' 1 ''B.t1'']
           ''/'' {''/''}))
   = [''B.t1''] \<and>
   map row_test (results
     (run (replicate 9 (Tick 0) @ [WaitReturns 0 1, Tick 0] @ replicate 5 (Tick 0) @
           [WaitReturns 0 0, Tick 0, Tick 0, Tick 0] @ replicate 9 (Tick 0) @
           [WaitReturns 0 0, Tick 0, Tick 0, Tick 0])
        (init False 1 [listed ''bin'' ''/out'' 1 ''A.t1'', listed ''bin'' ''/out'' 1 ''B.t1'']
           ''/'' {''/''})))
   = [''A.t1'', ''B.t1''] \<and>
   running_tests
     (run (replicate 9 (Tick 0) @ [WaitReturns 0 1, Tick 0] @ replicate 5 (Tick 0) @
           [WaitReturns 0 0, Tick 0, Tick 0, Tick 0])
        (init False 1 [listed ''bin'' ''/out'' 1 ''A.t1'', listed ''bin'' ''/out'' 1 ''B.t1'']
           ''/'' {''/''}))
   = [''A.t1'']"
  by code_simp

text \<open>
  Claim C10, amended. Every attempt of a case puts the name of the case at the back of
  the queue of running tests, once per attempt, and only the last attempt of a case
  takes an entry off, the one at the front, whatever name it bears. So in every run
  from the initial state, whatever the interleaving: the queue is the list of the names
  of all attempts started so far, in the order of their start, without as many entries
  at its front as rows have been recorded; the names so enqueued are, with their
  multiplicities, the names of the rows recorded, of the attempts that are between
  their \<^verbatim>\<open>put\<close> and their \<^verbatim>\<open>get\<close> (or were left there by an exception) and of the
  retries taken, so that a recorded case that was retried \<open>k\<close> times has been enqueued
  \<open>k + 1\<close> times; and the length of the queue is the number of attempts between
  their \<^verbatim>\<open>put\<close> and their \<^verbatim>\<open>get\<close> plus the number of retries taken.
\<close>

theorem queue_is_attempts_without_front:
  "running_tests (run es (init win J q d ds)) =
     drop (length (results (run es (init win J q d ds))))
       (attempts_started es (init win J q d ds)) \<and>
   mset (attempts_started es (init win J q d ds)) =
     mset (map row_test (results (run es (init win J q d ds)))) +
     attempts_open (run es (init win J q d ds)) +
     mset (retried es (init win J q d ds)) \<and>
   length (running_tests (run es (init win J q d ds))) =
     size (attempts_open (run es (init win J q d ds))) +
     length (retried es (init win J q d ds))"
  by (rule queue_of_init)

subsection \<open>Groups executing at the same time\<close>

text \<open>
  Claim C1 at a concrete run. Two workers and the queue \<open>A.t1\<close>, \<open>A.t2\<close>: the first
  worker executes its nine statements up to \<^verbatim>\<open>process.wait()\<close>, then the second
  does the same. \<^verbatim>\<open>running_groups\<close> is a local variable of \<^verbatim>\<open>_schedule_tests\<close>
  (line 256), so the second worker tests the group \<open>A\<close> against its own, empty list
  and takes \<open>A.t2\<close>: both child processes are running, both of group \<open>A\<close>, and each
  worker has \<open>A\<close> in its own list.
\<close>

theorem same_group_executes_twice:
  "groups_executing (run (replicate 9 (Tick 0) @ replicate 9 (Tick 1))
      (init False 2 [listed ''bin'' ''/out'' 2 ''A.t1'', listed ''bin'' ''/out'' 2 ''A.t2'']
         ''/'' {''/''}))
     = [''A'', ''A''] \<and>
   map pc (workers (run (replicate 9 (Tick 0) @ replicate 9 (Tick 1))
      (init False 2 [listed ''bin'' ''/out'' 2 ''A.t1'', listed ''bin'' ''/out'' 2 ''A.t2'']
         ''/'' {''/''})))
     = [AtWait, AtWait] \<and>
   map running_groups (workers (run (replicate 9 (Tick 0) @ replicate 9 (Tick 1))
      (init False 2 [listed ''bin'' ''/out'' 2 ''A.t1'', listed ''bin'' ''/out'' 2 ''A.t2'']
         ''/'' {''/''})))
     = replicate 2 [''A''] \<and>
   map (test_name \<circ> test) (workers (run (replicate 9 (Tick 0) @ replicate 9 (Tick 1))
      (init False 2 [listed ''bin'' ''/out'' 2 ''A.t1'', listed ''bin'' ''/out'' 2 ''A.t2'']
         ''/'' {''/''})))
     = [''A.t1'', ''A.t2'']"
  by code_simp

subsection \<open>The claim block\<close>

text \<open>
  Claim C2 at a concrete run. Two workers and the queue \<open>A.t1\<close>, \<open>A.t2\<close>, \<open>B.t1\<close>.
  While the first worker waits for the process of \<open>A.t1\<close>, the second reaches the
  block of lines 267--272 with \<open>A.t2\<close>, \<open>B.t1\<close> on the queue. The protocol of the
  specification skips \<open>A.t2\<close>, whose group is active, and returns \<open>B.t1\<close>; the
  code returns \<open>A.t2\<close>, the front of the queue, and leaves \<open>B.t1\<close>.
\<close>

theorem claim_takes_case_of_active_group:
  "pc (workers (run (replicate 9 (Tick 0) @ [Tick 1, Tick 1])
      (init False 2 [listed ''bin'' ''/out'' 2 ''A.t1'', listed ''bin'' ''/out'' 2 ''A.t2'',
               listed ''bin'' ''/out'' 2 ''B.t1''] ''/'' {''/''})) ! 1) = AtClaim \<and>
   groups_executing (run (replicate 9 (Tick 0) @ [Tick 1, Tick 1])
      (init False 2 [listed ''bin'' ''/out'' 2 ''A.t1'', listed ''bin'' ''/out'' 2 ''A.t2'',
               listed ''bin'' ''/out'' 2 ''B.t1''] ''/'' {''/''})) = [''A''] \<and>
   groups_held (run (replicate 9 (Tick 0) @ [Tick 1, Tick 1])
      (init False 2 [listed ''bin'' ''/out'' 2 ''A.t1'', listed ''bin'' ''/out'' 2 ''A.t2'',
               listed ''bin'' ''/out'' 2 ''B.t1''] ''/'' {''/''})) = [''A''] \<and>
   tests (run (replicate 9 (Tick 0) @ [Tick 1, Tick 1])
      (init False 2 [listed ''bin'' ''/out'' 2 ''A.t1'', listed ''bin'' ''/out'' 2 ''A.t2'',
               listed ''bin'' ''/out'' 2 ''B.t1''] ''/'' {''/''}))
     = [listed ''bin'' ''/out'' 2 ''A.t2'', listed ''bin'' ''/out'' 2 ''B.t1''] \<and>
   test_candidate (workers (run (replicate 9 (Tick 0) @ [Tick 1, Tick 1, Tick 1])
      (init False 2 [listed ''bin'' ''/out'' 2 ''A.t1'', listed ''bin'' ''/out'' 2 ''A.t2'',
               listed ''bin'' ''/out'' 2 ''B.t1''] ''/'' {''/''})) ! 1)
     = Some (listed ''bin'' ''/out'' 2 ''A.t2'') \<and>
   tests (run (replicate 9 (Tick 0) @ [Tick 1, Tick 1, Tick 1])
      (init False 2 [listed ''bin'' ''/out'' 2 ''A.t1'', listed ''bin'' ''/out'' 2 ''A.t2'',
               listed ''bin'' ''/out'' 2 ''B.t1''] ''/'' {''/''}))
     = [listed ''bin'' ''/out'' 2 ''B.t1''] \<and>
   claimNext_spec [listed ''bin'' ''/out'' 2 ''A.t2'', listed ''bin'' ''/out'' 2 ''B.t1''] [''A'']
     = (Some (listed ''bin'' ''/out'' 2 ''B.t1''), [listed ''bin'' ''/out'' 2 ''A.t2''], [''A'', ''B''])"
  by code_simp

subsection \<open>The worker loop\<close>

text \<open>
  Claim C5 at a concrete run. Two workers and the queue \<open>A.t1\<close>, \<open>A.t2\<close>. While
  the first worker waits for the process of \<open>A.t1\<close>, the queue holds \<open>A.t2\<close> only,
  a case of the group that is executing, and the protocol of the specification returns
  \<open>None\<close>, on which the worker is to stop. In the code the block leaves \<open>A.t2\<close> in
  \<^verbatim>\<open>test_candidate\<close>, the worker goes on into \<^verbatim>\<open>_run_test\<close> and launches it.
\<close>

theorem worker_runs_on_when_all_groups_active:
  "tests (run (replicate 9 (Tick 0) @ [Tick 1, Tick 1])
      (init False 2 [listed ''bin'' ''/out'' 2 ''A.t1'', listed ''bin'' ''/out'' 2 ''A.t2'']
         ''/'' {''/''}))
     = [listed ''bin'' ''/out'' 2 ''A.t2''] \<and>
   groups_executing (run (replicate 9 (Tick 0) @ [Tick 1, Tick 1])
      (init False 2 [listed ''bin'' ''/out'' 2 ''A.t1'', listed ''bin'' ''/out'' 2 ''A.t2'']
         ''/'' {''/''}))
     = [''A''] \<and>
   claimNext_spec [listed ''bin'' ''/out'' 2 ''A.t2''] [''A'']
     = (None, [listed ''bin'' ''/out'' 2 ''A.t2''], [''A'']) \<and>
   test_candidate (workers (run (replicate 9 (Tick 0) @ [Tick 1, Tick 1, Tick 1])
      (init False 2 [listed ''bin'' ''/out'' 2 ''A.t1'', listed ''bin'' ''/out'' 2 ''A.t2'']
         ''/'' {''/''})) ! 1)
     = Some (listed ''bin'' ''/out'' 2 ''A.t2'') \<and>
   pc (workers (run (replicate 9 (Tick 0) @ [Tick 1, Tick 1, Tick 1, Tick 1])
      (init False 2 [listed ''bin'' ''/out'' 2 ''A.t1'', listed ''bin'' ''/out'' 2 ''A.t2'']
         ''/'' {''/''})) ! 1)
     = AtPut \<and>
   procs (run (replicate 9 (Tick 0) @ replicate 8 (Tick 1))
      (init False 2 [listed ''bin'' ''/out'' 2 ''A.t1'', listed ''bin'' ''/out'' 2 ''A.t2'']
         ''/'' {''/''}))
     = [(0, cmd (listed ''bin'' ''/out'' 2 ''A.t1''), ''/out/A.t1''),
        (1, cmd (listed ''bin'' ''/out'' 2 ''A.t2''), ''/out/A.t2'')]"
  by code_simp

subsection \<open>Retry\<close>

text \<open>
  Claim C4, as stated, at two concrete runs. In the first, the child of a case with
  one retry left ends with exit code \<open>-2\<close>, the code of a process killed by SIGINT,
  while \<^verbatim>\<open>INTERRUPT\<close> is not set. Line 247 would make the outcome of such an
  attempt Killed, not Failed; line 242 tests \<^verbatim>\<open>ret != 0\<close> only, and the case is run
  again with no retry left. In the second, the output directory is the relative path
  \<open>o\<close>, the process starts in \<open>/s\<close>, and \<open>/s/o/A.t1/o/A.t1\<close> exists. The first
  attempt changes to \<open>/s/o/A.t1\<close>, opens the log \<open>/s/o/A.t1/o/A.t1/run.log\<close> and
  launches; it fails with exit code 1 and is retried. The retry changes to
  \<open>/s/o/A.t1/o/A.t1\<close>, where the directory of the log does not exist: opening it
  raises, the same log file is not opened again and nothing is launched.
\<close>

theorem retry_of_killed_exit_and_in_relative_directory:
  "pc (workers (run (replicate 9 (Tick 0) @ [WaitReturns 0 (- 2), Tick 0])
      (init False 1 [listed ''bin'' ''/out'' 1 ''A.t1''] ''/'' {''/''})) ! 0) = AtPut \<and>
   retry (test (workers (run (replicate 9 (Tick 0) @ [WaitReturns 0 (- 2), Tick 0])
      (init False 1 [listed ''bin'' ''/out'' 1 ''A.t1''] ''/'' {''/''})) ! 0)) = 0 \<and>
   \<not> INTERRUPT (run (replicate 9 (Tick 0) @ [WaitReturns 0 (- 2), Tick 0])
      (init False 1 [listed ''bin'' ''/out'' 1 ''A.t1''] ''/'' {''/''})) \<and>
   status_of (- 2) = Killed \<and>
   procs (run (replicate 9 (Tick 0) @ [WaitReturns 0 1, Tick 0])
      (init False 1 [listed ''bin'' ''o'' 1 ''A.t1''] ''/s''
         {''/'', ''/s'', ''/s/o'', ''/s/o/A.t1'', ''/s/o/A.t1/o'', ''/s/o/A.t1/o/A.t1''}))
     = [(0, cmd (listed ''bin'' ''o'' 1 ''A.t1''), ''/s/o/A.t1'')] \<and>
   pc (workers (run (replicate 9 (Tick 0) @ [WaitReturns 0 1, Tick 0])
      (init False 1 [listed ''bin'' ''o'' 1 ''A.t1''] ''/s''
         {''/'', ''/s'', ''/s/o'', ''/s/o/A.t1'', ''/s/o/A.t1/o'', ''/s/o/A.t1/o/A.t1''})) ! 0)
     = AtPut \<and>
   files (run (replicate 9 (Tick 0) @ [WaitReturns 0 1, Tick 0])
      (init False 1 [listed ''bin'' ''o'' 1 ''A.t1''] ''/s''
         {''/'', ''/s'', ''/s/o'', ''/s/o/A.t1'', ''/s/o/A.t1/o'', ''/s/o/A.t1/o/A.t1''}))
      ''/s/o/A.t1/o/A.t1/run.log'' = Some [] \<and>
   pc (workers (run (replicate 9 (Tick 0) @ [WaitReturns 0 1, Tick 0] @ replicate 4 (Tick 0))
      (init False 1 [listed ''bin'' ''o'' 1 ''A.t1''] ''/s''
         {''/'', ''/s'', ''/s/o'', ''/s/o/A.t1'', ''/s/o/A.t1/o'', ''/s/o/A.t1/o/A.t1''})) ! 0)
     = RunRaised \<and>
   procs (run (replicate 9 (Tick 0) @ [WaitReturns 0 1, Tick 0] @ replicate 4 (Tick 0))
      (init False 1 [listed ''bin'' ''o'' 1 ''A.t1''] ''/s''
         {''/'', ''/s'', ''/s/o'', ''/s/o/A.t1'', ''/s/o/A.t1/o'', ''/s/o/A.t1/o/A.t1''}))
     = [(0, cmd (listed ''bin'' ''o'' 1 ''A.t1''), ''/s/o/A.t1'')]"
  by code_simp

text \<open>
  Claim C4, amended. At line 242 a case is run again if and only if the exit code is
  not zero (whether line 247 would call it Failed or Killed), a retry is left and
  \<^verbatim>\<open>INTERRUPT\<close> is not set; otherwise the attempt is final and line 246 is next.
  The new attempt is made by the same worker at once, for the same name, command and
  directory with one retry fewer; the worker keeps its group, no row is written and
  the queue of tests is untouched; and when the directory of the case is an absolute
  path, the next five statements of the worker open the same log file for writing,
  which empties it, and launch the same command in that directory.
\<close>

theorem retry_iff_nonzero_exit:
  assumes "w < length (workers s)" and "k = workers s ! w" and "pc k = AtRetryCheck"
    and "k' = workers (step (Tick w) s) ! w"
  shows "(pc k' = AtPut) = (ret k \<noteq> 0 \<and> 0 < retry (test k) \<and> \<not> INTERRUPT s) \<and>
         (pc k' = AtRecord) = (ret k = 0 \<or> retry (test k) \<le> 0 \<or> INTERRUPT s) \<and>
         test_name (test k') = test_name (test k) \<and> cmd (test k') = cmd (test k) \<and>
         working_dir (test k') = working_dir (test k) \<and>
         retry (test k') = (if pc k' = AtPut then retry (test k) - 1 else retry (test k)) \<and>
         running_groups k' = running_groups k \<and> test_group k' = test_group k \<and>
         results (step (Tick w) s) = results s \<and> tests (step (Tick w) s) = tests s \<and>
         (pc k' = AtPut \<and> is_absolute (ISWINDOWS s) (working_dir (test k)) \<longrightarrow>
            files (run [Tick w, Tick w, Tick w, Tick w, Tick w] s) (log_of (working_dir (test k)))
              = Some [] \<and>
            procs (run [Tick w, Tick w, Tick w, Tick w, Tick w] s) =
              procs s @ [(w, cmd (test k), working_dir (test k))])"
  using assms by (auto simp: is_absolute_log_of)

text \<open>
  An instance. The first attempt of a case with two retries ends with exit code 1: it
  is run again with one retry, and the same command is launched a second time in the
  same directory. With exit code 0 the attempt is final.
\<close>

theorem retry_iff_nonzero_exit_witness:
  "pc (workers (step (Tick 0)
      (run (replicate 9 (Tick 0) @ [WaitReturns 0 1])
         (init False 1 [listed ''bin'' ''/out'' 2 ''A.t1''] ''/'' {''/''}))) ! 0) = AtPut \<and>
   retry (test (workers (step (Tick 0)
      (run (replicate 9 (Tick 0) @ [WaitReturns 0 1])
         (init False 1 [listed ''bin'' ''/out'' 2 ''A.t1''] ''/'' {''/''}))) ! 0)) = 1 \<and>
   procs (run [Tick 0, Tick 0, Tick 0, Tick 0, Tick 0]
      (run (replicate 9 (Tick 0) @ [WaitReturns 0 1])
         (init False 1 [listed ''bin'' ''/out'' 2 ''A.t1''] ''/'' {''/''})))
     = [(0, cmd (listed ''bin'' ''/out'' 2 ''A.t1''), ''/out/A.t1''),
        (0, cmd (listed ''bin'' ''/out'' 2 ''A.t1''), ''/out/A.t1'')] \<and>
   pc (workers (step (Tick 0)
      (run (replicate 9 (Tick 0) @ [WaitReturns 0 0])
         (init False 1 [listed ''bin'' ''/out'' 2 ''A.t1''] ''/'' {''/''}))) ! 0) = AtRecord"
proof -
  define S where "S = run (replicate 9 (Tick 0) @ [WaitReturns 0 1])
         (init False 1 [listed ''bin'' ''/out'' 2 ''A.t1''] ''/'' {''/''})"
  define T where "T = run (replicate 9 (Tick 0) @ [WaitReturns 0 0])
         (init False 1 [listed ''bin'' ''/out'' 2 ''A.t1''] ''/'' {''/''})"
  have S: "0 < length (workers S)" "pc (workers S ! 0) = AtRetryCheck" "ret (workers S ! 0) = 1"
    "retry (test (workers S ! 0)) = 2" "\<not> INTERRUPT S"
    "is_absolute (ISWINDOWS S) (working_dir (test (workers S ! 0)))"
    "procs S = [(0, cmd (listed ''bin'' ''/out'' 2 ''A.t1''), ''/out/A.t1'')]"
    "cmd (test (workers S ! 0)) = cmd (listed ''bin'' ''/out'' 2 ''A.t1'')"
    "working_dir (test (workers S ! 0)) = ''/out/A.t1''"
    unfolding S_def by code_simp+
  have T: "0 < length (workers T)" "pc (workers T ! 0) = AtRetryCheck" "ret (workers T ! 0) = 0"
    unfolding T_def by code_simp+
  have "pc (workers (step (Tick 0) S) ! 0) = AtPut \<and>
    retry (test (workers (step (Tick 0) S) ! 0)) = 1 \<and>
    procs (run [Tick 0, Tick 0, Tick 0, Tick 0, Tick 0] S)
     = [(0, cmd (listed ''bin'' ''/out'' 2 ''A.t1''), ''/out/A.t1''),
        (0, cmd (listed ''bin'' ''/out'' 2 ''A.t1''), ''/out/A.t1'')]"
    using retry_iff_nonzero_exit [OF S(1) refl S(2) refl] S(3-9)
    by (simp del: run_Cons run_Nil step.simps)
  moreover have "pc (workers (step (Tick 0) T) ! 0) = AtRecord"
    using retry_iff_nonzero_exit [OF T(1) refl T(2) refl] T(3)
    by (simp del: run_Cons run_Nil step.simps)
  ultimately show ?thesis
    unfolding S_def T_def by blast
qed

subsection \<open>The recorded status\<close>

text \<open>
  Claim C6, as stated, at two concrete runs. \<^verbatim>\<open>INTERRUPT\<close> is set while the worker
  is between the launch and the check of line 236, so the check sets \<^verbatim>\<open>ret\<close> to
  \<open>- SIGINT\<close> (line 238). The attempt is final and its row is Killed, whether the
  child ends with exit code 0, for which the claim says Passed, or with exit code 5,
  for which it says Failed.
\<close>

theorem launch_interrupt_records_killed:
  "results (run (replicate 8 (Tick 0) @ [SetInterrupt, Tick 0, WaitReturns 0 0, Tick 0, Tick 0])
      (init False 1 [listed ''bin'' ''/out'' 0 ''A.t1''] ''/'' {''/''}))
     = [\<lparr>row_test = ''A.t1'', row_status = Killed, row_time = 0,
         row_log = ''/out/A.t1/run.log''\<rparr>] \<and>
   results (run (replicate 8 (Tick 0) @ [SetInterrupt, Tick 0, WaitReturns 0 5, Tick 0, Tick 0])
      (init False 1 [listed ''bin'' ''/out'' 0 ''A.t1''] ''/'' {''/''}))
     = [\<lparr>row_test = ''A.t1'', row_status = Killed, row_time = 0,
         row_log = ''/out/A.t1/run.log''\<rparr>]"
  by code_simp

text \<open>
  Claim C6, amended. The row that line 252 appends for a final attempt has the status
  Passed when \<^verbatim>\<open>ret\<close> is 0, Killed when it is \<open>- SIGINT\<close>, and Failed otherwise.
  \<^verbatim>\<open>ret\<close> is the exit code of the child when the attempt was not interrupted at the
  launch: when \<^verbatim>\<open>process.wait()\<close> returns the exit code \<open>rc\<close> of a final attempt,
  the row appended by the next two statements of the worker has the status so
  determined by \<open>rc\<close>. When \<^verbatim>\<open>INTERRUPT\<close> is set at the check of line 236 and
  SIGINT is sent, \<^verbatim>\<open>ret\<close> is \<open>- SIGINT\<close> and the row is Killed whatever exit code
  \<open>rc\<close> the child ends with. (On Windows, where no signal is sent, such an attempt
  raises an exception, which ends the worker, and no row is written: the last part of
  the statement.)
\<close>

theorem recorded_status:
  assumes "w < length (workers s)" and "k = workers s ! w"
  shows "(pc k = AtRecord \<and> running_tests s \<noteq> [] \<longrightarrow>
            results (step (Tick w) s) = results s @
              [\<lparr>row_test = test_name (test k),
                row_status = (if ret k = 0 then Passed else if ret k = - SIGINT then Killed else Failed),
                row_time = clock s - start k, row_log = log_of (working_dir (test k))\<rparr>]) \<and>
         (pc k = AtWait \<and> running_tests s \<noteq> [] \<and> (rc = 0 \<or> retry (test k) \<le> 0 \<or> INTERRUPT s) \<longrightarrow>
            results (run [WaitReturns w rc, Tick w, Tick w] s) = results s @
              [\<lparr>row_test = test_name (test k),
                row_status = (if rc = 0 then Passed else if rc = - SIGINT then Killed else Failed),
                row_time = clock s - start k, row_log = log_of (working_dir (test k))\<rparr>]) \<and>
         (pc k = AtLaunchCheck \<and> running_tests s \<noteq> [] \<and> INTERRUPT s \<and> \<not> ISWINDOWS s \<longrightarrow>
            ret (workers (run [Tick w, WaitReturns w rc] s) ! w) = - SIGINT \<and>
            results (run [Tick w, WaitReturns w rc, Tick w, Tick w] s) = results s @
              [\<lparr>row_test = test_name (test k), row_status = Killed,
                row_time = clock s - start k, row_log = log_of (working_dir (test k))\<rparr>]) \<and>
         (pc k = AtLaunchCheck \<and> INTERRUPT s \<and> ISWINDOWS s \<longrightarrow>
            results (run [Tick w, WaitReturns w rc] s) = results s \<and>
            pc (workers (run [Tick w, WaitReturns w rc] s) ! w) = RunRaised \<and>
            step (Tick w) (run [Tick w, WaitReturns w rc] s) = run [Tick w, WaitReturns w rc] s)"
  using assms
  by (auto simp: wait_returns_def status_of_def SIGINT_def split: list.splits)

text \<open>
  Four instances: a case without retries whose process ends with exit code 3 is
  recorded as Failed; one whose process ends with exit code \<open>-2\<close> as Killed; one
  interrupted at the launch, whose process ends with exit code 0, as Killed; and on
  Windows the same interrupt leaves the table empty.
\<close>

theorem recorded_status_witness:
  "results (run [WaitReturns 0 3, Tick 0, Tick 0]
      (run (replicate 9 (Tick 0)) (init False 1 [listed ''bin'' ''/out'' 0 ''A.t1''] ''/'' {''/''}))) =
     [\<lparr>row_test = ''A.t1'', row_status = Failed, row_time = 0, row_log = ''/out/A.t1/run.log''\<rparr>] \<and>
   results (step (Tick 0)
      (run (replicate 9 (Tick 0) @ [WaitReturns 0 (- 2), Tick 0])
         (init False 1 [listed ''bin'' ''/out'' 0 ''A.t1''] ''/'' {''/''}))) =
     [\<lparr>row_test = ''A.t1'', row_status = Killed, row_time = 0, row_log = ''/out/A.t1/run.log''\<rparr>] \<and>
   results (run [Tick 0, WaitReturns 0 0, Tick 0, Tick 0]
      (run (replicate 8 (Tick 0) @ [SetInterrupt])
         (init False 1 [listed ''bin'' ''/out'' 0 ''A.t1''] ''/'' {''/''}))) =
     [\<lparr>row_test = ''A.t1'', row_status = Killed, row_time = 0, row_log = ''/out/A.t1/run.log''\<rparr>] \<and>
   results (run [Tick 0, WaitReturns 0 0]
      (run (replicate 8 (Tick 0) @ [SetInterrupt])
         (init True 1 [listed ''bin'' ''C:/out'' 0 ''A.t1''] ''C:/'' {''C:/''}))) = []"
proof -
  define S where "S = run (replicate 9 (Tick 0))
    (init False 1 [listed ''bin'' ''/out'' 0 ''A.t1''] ''/'' {''/''})"
  define T where "T = run (replicate 9 (Tick 0) @ [WaitReturns 0 (- 2), Tick 0])
         (init False 1 [listed ''bin'' ''/out'' 0 ''A.t1''] ''/'' {''/''})"
  define U where "U = run (replicate 8 (Tick 0) @ [SetInterrupt])
         (init False 1 [listed ''bin'' ''/out'' 0 ''A.t1''] ''/'' {''/''})"
  define V where "V = run (replicate 8 (Tick 0) @ [SetInterrupt])
         (init True 1 [listed ''bin'' ''C:/out'' 0 ''A.t1''] ''C:/'' {''C:/''})"
  have S: "0 < length (workers S)" "pc (workers S ! 0) = AtWait" "running_tests S \<noteq> []"
    "retry (test (workers S ! 0)) \<le> 0" "results S = []" "test_name (test (workers S ! 0)) = ''A.t1''"
    "clock S - start (workers S ! 0) = 0" "log_of (working_dir (test (workers S ! 0))) = ''/out/A.t1/run.log''"
    unfolding S_def by code_simp+
  have T: "0 < length (workers T)" "pc (workers T ! 0) = AtRecord" "running_tests T \<noteq> []"
    "ret (workers T ! 0) = - 2" "results T = []" "test_name (test (workers T ! 0)) = ''A.t1''"
    "clock T - start (workers T ! 0) = 0" "log_of (working_dir (test (workers T ! 0))) = ''/out/A.t1/run.log''"
    unfolding T_def by code_simp+
  have U: "0 < length (workers U)" "pc (workers U ! 0) = AtLaunchCheck" "running_tests U \<noteq> []"
    "INTERRUPT U" "\<not> ISWINDOWS U" "results U = []" "test_name (test (workers U ! 0)) = ''A.t1''"
    "clock U - start (workers U ! 0) = 0" "log_of (working_dir (test (workers U ! 0))) = ''/out/A.t1/run.log''"
    unfolding U_def by code_simp+
  have V: "0 < length (workers V)" "pc (workers V ! 0) = AtLaunchCheck"
    "INTERRUPT V" "ISWINDOWS V" "results V = []"
    unfolding V_def by code_simp+
  have "results (run [WaitReturns 0 3, Tick 0, Tick 0] S) =
     [\<lparr>row_test = ''A.t1'', row_status = Failed, row_time = 0, row_log = ''/out/A.t1/run.log''\<rparr>]"
    using recorded_status [OF S(1) refl, of 3] S
    by (simp add: SIGINT_def del: run_Cons run_Nil step.simps)
  moreover have "results (step (Tick 0) T) =
     [\<lparr>row_test = ''A.t1'', row_status = Killed, row_time = 0, row_log = ''/out/A.t1/run.log''\<rparr>]"
    using recorded_status [OF T(1) refl, of 0] T
    by (simp add: SIGINT_def del: run_Cons run_Nil step.simps)
  moreover have "results (run [Tick 0, WaitReturns 0 0, Tick 0, Tick 0] U) =
     [\<lparr>row_test = ''A.t1'', row_status = Killed, row_time = 0, row_log = ''/out/A.t1/run.log''\<rparr>]"
    using recorded_status [OF U(1) refl, of 0] U
    by (simp del: run_Cons run_Nil step.simps)
  moreover have "results (run [Tick 0, WaitReturns 0 0] V) = []"
    using recorded_status [OF V(1) refl, of 0] V
    by (simp del: run_Cons run_Nil step.simps)
  ultimately show ?thesis
    unfolding S_def T_def U_def V_def by blast
qed

subsection \<open>An interrupt at the launch\<close>

text \<open>
  Claim C7, as stated, at two concrete runs with \<^verbatim>\<open>INTERRUPT\<close> set between the
  launch and the check of line 236. In the first the worker sends SIGINT and then is
  at the exit of the \<^verbatim>\<open>with Popen\<close> block, which waits for the child: two further
  steps of the worker change nothing, and it goes on only when the child has ended. It
  does wait. In the second the platform is Windows: \<^verbatim>\<open>send_signal\<close> raises, no
  signal is sent, and after the child has ended the worker ends with the exception and
  without a row.
\<close>

theorem worker_waits_after_signal:
  "pc (workers (run (replicate 8 (Tick 0) @ [SetInterrupt, Tick 0])
      (init False 1 [listed ''bin'' ''/out'' 0 ''A.t1''] ''/'' {''/''})) ! 0) = AtReap \<and>
   signals (run (replicate 8 (Tick 0) @ [SetInterrupt, Tick 0])
      (init False 1 [listed ''bin'' ''/out'' 0 ''A.t1''] ''/'' {''/''})) = [(0, 2)] \<and>
   pc (workers (run (replicate 8 (Tick 0) @ [SetInterrupt, Tick 0, Tick 0, Tick 0])
      (init False 1 [listed ''bin'' ''/out'' 0 ''A.t1''] ''/'' {''/''})) ! 0) = AtReap \<and>
   results (run (replicate 8 (Tick 0) @ [SetInterrupt, Tick 0, Tick 0, Tick 0])
      (init False 1 [listed ''bin'' ''/out'' 0 ''A.t1''] ''/'' {''/''})) = [] \<and>
   pc (workers (run (replicate 8 (Tick 0) @ [SetInterrupt, Tick 0, Tick 0, Tick 0, WaitReturns 0 0])
      (init False 1 [listed ''bin'' ''/out'' 0 ''A.t1''] ''/'' {''/''})) ! 0) = AtRetryCheck \<and>
   signals (run (replicate 8 (Tick 0) @ [SetInterrupt, Tick 0, WaitReturns 0 0, Tick 0, Tick 0])
      (init True 1 [listed ''bin'' ''C:/out'' 0 ''A.t1''] ''C:/'' {''C:/''})) = [] \<and>
   pc (workers (run (replicate 8 (Tick 0) @ [SetInterrupt, Tick 0, WaitReturns 0 0, Tick 0, Tick 0])
      (init True 1 [listed ''bin'' ''C:/out'' 0 ''A.t1''] ''C:/'' {''C:/''})) ! 0) = RunRaised \<and>
   results (run (replicate 8 (Tick 0) @ [SetInterrupt, Tick 0, WaitReturns 0 0, Tick 0, Tick 0])
      (init True 1 [listed ''bin'' ''C:/out'' 0 ''A.t1''] ''C:/'' {''C:/''})) = []"
  by code_simp

text \<open>
  Claim C7, amended. At line 236, right after the launch: when \<^verbatim>\<open>INTERRUPT\<close> is set
  and the platform is not Windows, the same statement calls \<^verbatim>\<open>send_signal\<close> with
  SIGINT for the child and sets \<^verbatim>\<open>ret\<close> to \<open>- SIGINT\<close>; the worker then is blocked
  until the child ends, a step of its own changing nothing, and goes on to line 242
  with \<^verbatim>\<open>ret\<close> still \<open>- SIGINT\<close>, whatever exit code \<open>rc\<close> the child ends with.
  On Windows no signal is sent; the worker is blocked until the child ends and then
  has ended with the exception, a step of its own changing nothing and no row being
  written. When \<^verbatim>\<open>INTERRUPT\<close> is not set, no signal is sent, the worker is blocked
  in \<^verbatim>\<open>process.wait()\<close>, and \<^verbatim>\<open>ret\<close> becomes the exit code \<open>rc\<close> when the
  child ends.
\<close>

theorem interrupt_at_launch:
  assumes "w < length (workers s)" and "pc (workers s ! w) = AtLaunchCheck"
  shows "(INTERRUPT s \<and> \<not> ISWINDOWS s \<longrightarrow>
            signals (step (Tick w) s) = signals s @ [(w, SIGINT)] \<and>
            pc (workers (step (Tick w) s) ! w) = AtReap \<and>
            ret (workers (step (Tick w) s) ! w) = - SIGINT \<and>
            step (Tick w) (step (Tick w) s) = step (Tick w) s \<and>
            pc (workers (run [Tick w, WaitReturns w rc] s) ! w) = AtRetryCheck \<and>
            ret (workers (run [Tick w, WaitReturns w rc] s) ! w) = - SIGINT) \<and>
         (INTERRUPT s \<and> ISWINDOWS s \<longrightarrow>
            signals (step (Tick w) s) = signals s \<and>
            pc (workers (step (Tick w) s) ! w) = AtReapRaise \<and>
            step (Tick w) (step (Tick w) s) = step (Tick w) s \<and>
            pc (workers (run [Tick w, WaitReturns w rc] s) ! w) = RunRaised \<and>
            step (Tick w) (run [Tick w, WaitReturns w rc] s) = run [Tick w, WaitReturns w rc] s \<and>
            results (run [Tick w, WaitReturns w rc] s) = results s) \<and>
         (\<not> INTERRUPT s \<longrightarrow>
            signals (step (Tick w) s) = signals s \<and>
            pc (workers (step (Tick w) s) ! w) = AtWait \<and>
            step (Tick w) (step (Tick w) s) = step (Tick w) s \<and>
            pc (workers (run [Tick w, WaitReturns w rc] s) ! w) = AtRetryCheck \<and>
            ret (workers (run [Tick w, WaitReturns w rc] s) ! w) = rc)"
  using assms by (simp add: wait_returns_def)

text \<open>
  Three instances, for a child that ends with exit code 5: not interrupted, \<^verbatim>\<open>ret\<close>
  is 5; interrupted before the check, one SIGINT is sent and \<^verbatim>\<open>ret\<close> is
  \<open>- SIGINT\<close>; interrupted before the check on Windows, the worker ends with the
  exception.
\<close>

theorem interrupt_at_launch_witness:
  "pc (workers (step (Tick 0)
      (run (replicate 8 (Tick 0)) (init False 1 [listed ''bin'' ''/out'' 0 ''A.t1''] ''/'' {''/''}))) ! 0)
     = AtWait \<and>
   ret (workers (run [Tick 0, WaitReturns 0 5]
      (run (replicate 8 (Tick 0)) (init False 1 [listed ''bin'' ''/out'' 0 ''A.t1''] ''/'' {''/''}))) ! 0)
     = 5 \<and>
   signals (step (Tick 0)
      (run (replicate 8 (Tick 0) @ [SetInterrupt])
         (init False 1 [listed ''bin'' ''/out'' 0 ''A.t1''] ''/'' {''/''})))
     = [(0, SIGINT)] \<and>
   ret (workers (run [Tick 0, WaitReturns 0 5]
      (run (replicate 8 (Tick 0) @ [SetInterrupt])
         (init False 1 [listed ''bin'' ''/out'' 0 ''A.t1''] ''/'' {''/''}))) ! 0)
     = - SIGINT \<and>
   pc (workers (run [Tick 0, WaitReturns 0 5]
      (run (replicate 8 (Tick 0) @ [SetInterrupt])
         (init True 1 [listed ''bin'' ''C:/out'' 0 ''A.t1''] ''C:/'' {''C:/''}))) ! 0)
     = RunRaised"
proof -
  define S where "S = run (replicate 8 (Tick 0))
    (init False 1 [listed ''bin'' ''/out'' 0 ''A.t1''] ''/'' {''/''})"
  define T where "T = run (replicate 8 (Tick 0) @ [SetInterrupt])
      (init False 1 [listed ''bin'' ''/out'' 0 ''A.t1''] ''/'' {''/''})"
  define V where "V = run (replicate 8 (Tick 0) @ [SetInterrupt])
      (init True 1 [listed ''bin'' ''C:/out'' 0 ''A.t1''] ''C:/'' {''C:/''})"
  have S: "0 < length (workers S)" "pc (workers S ! 0) = AtLaunchCheck" "\<not> INTERRUPT S"
    unfolding S_def by code_simp+
  have T: "0 < length (workers T)" "pc (workers T ! 0) = AtLaunchCheck" "INTERRUPT T"
    "\<not> ISWINDOWS T" "signals T = []"
    unfolding T_def by code_simp+
  have V: "0 < length (workers V)" "pc (workers V ! 0) = AtLaunchCheck" "INTERRUPT V"
    "ISWINDOWS V"
    unfolding V_def by code_simp+
  have "pc (workers (step (Tick 0) S) ! 0) = AtWait \<and>
    ret (workers (run [Tick 0, WaitReturns 0 5] S) ! 0) = 5"
    using interrupt_at_launch [OF S(1,2), of 5] S(3)
    by (simp del: run_Cons run_Nil step.simps)
  moreover have "signals (step (Tick 0) T) = [(0, SIGINT)] \<and>
    ret (workers (run [Tick 0, WaitReturns 0 5] T) ! 0) = - SIGINT"
    using interrupt_at_launch [OF T(1,2), of 5] T(3,4,5)
    by (simp del: run_Cons run_Nil step.simps)
  moreover have "pc (workers (run [Tick 0, WaitReturns 0 5] V) ! 0) = RunRaised"
    using interrupt_at_launch [OF V(1,2), of 5] V(3,4)
    by (simp del: run_Cons run_Nil step.simps)
  ultimately show ?thesis
    unfolding S_def T_def V_def by blast
qed

subsection \<open>The working directory\<close>





subsection \<open>An interrupt before the workers start\<close>

lemma interrupted_run:
  "INTERRUPT (run es (step SetInterrupt (init win J q d ds))) \<and>
   results (run es (step SetInterrupt (init win J q d ds))) = [] \<and>
   tests (run es (step SetInterrupt (init win J q d ds))) = q \<and>
   procs (run es (step SetInterrupt (init win J q d ds))) = [] \<and>
   running_tests (run es (step SetInterrupt (init win J q d ds))) = [] \<and>
   length (workers (run es (step SetInterrupt (init win J q d ds)))) = J \<and>
   (\<forall>w<J. workers (run es (step SetInterrupt (init win J q d ds))) ! w =
      worker0\<lparr>pc := if Tick w \<in> set es then Stopped else AtInterruptCheck\<rparr>)"
proof (induction es rule: rev_induct)
  case Nil
  show ?case by (simp add: init_def worker0_def)
next
  case (snoc e es)
  define s where "s = run es (step SetInterrupt (init win J q d ds))"
  have inv: "INTERRUPT s" "results s = []" "tests s = q" "procs s = []" "running_tests s = []"
    "length (workers s) = J"
    and ws: "\<And>w. w < J \<Longrightarrow> workers s ! w =
      worker0\<lparr>pc := if Tick w \<in> set es then Stopped else AtInterruptCheck\<rparr>"
    using snoc.IH unfolding s_def by simp_all
  have "INTERRUPT (step e s) \<and> results (step e s) = [] \<and> tests (step e s) = q \<and>
     procs (step e s) = [] \<and> running_tests (step e s) = [] \<and> length (workers (step e s)) = J \<and>
     (\<forall>w<J. workers (step e s) ! w =
        worker0\<lparr>pc := if Tick w \<in> set (es @ [e]) then Stopped else AtInterruptCheck\<rparr>)"
  proof (cases e)
    case (Tick v)
    show ?thesis
    proof (cases "v < J")
      case True
      then show ?thesis
        using Tick inv ws [of v] ws
        by (auto simp: worker0_def nth_list_update)
    next
      case False
      then show ?thesis
        using Tick inv ws by auto
    qed
  next
    case (WaitReturns v rc)
    show ?thesis
    proof (cases "v < J")
      case True
      then show ?thesis
        using WaitReturns inv ws [of v] ws
        by (auto simp: wait_returns_def worker0_def)
    next
      case False
      then show ?thesis
        using WaitReturns inv ws by (auto simp: wait_returns_def)
    qed
  next
    case SetInterrupt
    then show ?thesis using inv ws by auto
  next
    case (Elapse n)
    then show ?thesis using inv ws by auto
  qed
  then show ?case
    unfolding s_def run_snoc [symmetric] .
qed

text \<open>
  Claim C8, as stated, at a concrete run. The one worker passes the check of line 260,
  then \<^verbatim>\<open>INTERRUPT\<close> is set: no case has been claimed yet and the queue is whole.
  The worker is past its check, so it claims \<open>A.t1\<close> and launches it; the child is
  sent SIGINT at line 237, and a row with the status Killed is written.
\<close>

theorem interrupt_after_first_check:
  "INTERRUPT (run [Tick 0, SetInterrupt]
     (init False 1 [listed ''bin'' ''/out'' 0 ''A.t1''] ''/'' {''/''})) \<and>
   tests (run [Tick 0, SetInterrupt] (init False 1 [listed ''bin'' ''/out'' 0 ''A.t1''] ''/'' {''/''}))
     = [listed ''bin'' ''/out'' 0 ''A.t1''] \<and>
   map test_candidate
     (workers (run [Tick 0, SetInterrupt]
        (init False 1 [listed ''bin'' ''/out'' 0 ''A.t1''] ''/'' {''/''})))
     = [None] \<and>
   results (run ([Tick 0, SetInterrupt] @ replicate 8 (Tick 0) @ [WaitReturns 0 0, Tick 0, Tick 0])
      (init False 1 [listed ''bin'' ''/out'' 0 ''A.t1''] ''/'' {''/''}))
     = [\<lparr>row_test = ''A.t1'', row_status = Killed, row_time = 0,
         row_log = ''/out/A.t1/run.log''\<rparr>]"
  by code_simp

text \<open>
  Claim C8, amended. If \<^verbatim>\<open>INTERRUPT\<close> is set before any worker has made its first
  check of line 260, then in every run every worker stops at its first statement and
  does nothing else: nothing is claimed, the queue is whole, nothing is launched and
  the table of results stays empty.
\<close>

theorem interrupt_before_first_check:
  assumes "s = run es (step SetInterrupt (init win J q d ds))"
  shows "results s = [] \<and> tests s = q \<and> procs s = [] \<and> running_tests s = [] \<and>
         length (workers s) = J \<and>
         (w < J \<longrightarrow>
            workers s ! w = worker0\<lparr>pc := if Tick w \<in> set es then Stopped else AtInterruptCheck\<rparr>)"
  using interrupted_run [of es win J q d ds] assms by simp

text \<open>
  An instance with two workers: after each has made a step, both have stopped and
  there is no row.
\<close>

theorem interrupt_before_first_check_witness:
  "results (run [Tick 0, Tick 1, Tick 0]
      (step SetInterrupt (init False 2 [listed ''bin'' ''/out'' 0 ''A.t1''] ''/'' {''/''}))) = [] \<and>
   tests (run [Tick 0, Tick 1, Tick 0]
      (step SetInterrupt (init False 2 [listed ''bin'' ''/out'' 0 ''A.t1''] ''/'' {''/''})))
     = [listed ''bin'' ''/out'' 0 ''A.t1''] \<and>
   pc (workers (run [Tick 0, Tick 1, Tick 0]
      (step SetInterrupt (init False 2 [listed ''bin'' ''/out'' 0 ''A.t1''] ''/'' {''/''}))) ! 0)
     = Stopped \<and>
   pc (workers (run [Tick 0, Tick 1, Tick 0]
      (step SetInterrupt (init False 2 [listed ''bin'' ''/out'' 0 ''A.t1''] ''/'' {''/''}))) ! 1)
     = Stopped"
proof -
  define S where "S = run [Tick 0, Tick 1, Tick 0]
      (step SetInterrupt (init False 2 [listed ''bin'' ''/out'' 0 ''A.t1''] ''/'' {''/''}))"
  have "results S = [] \<and> tests S = [listed ''bin'' ''/out'' 0 ''A.t1''] \<and>
    pc (workers S ! 0) = Stopped \<and> pc (workers S ! 1) = Stopped"
    using interrupt_before_first_check [OF S_def, of 0] interrupt_before_first_check [OF S_def, of 1]
    by simp
  then show ?thesis
    unfolding S_def .
qed

subsection \<open>Rows of the table of results\<close>

lemma consistent_tick:
  assumes "list_all consistent (workers s)" and "w < length (workers s)"
  shows "list_all consistent (workers (step (Tick w) s))"
proof -
  have k: "consistent (workers s ! w)"
    using assms by (rule list_all_nth)
  have upd: "\<And>k'. consistent k' \<Longrightarrow> list_all consistent ((workers s)[w := k'])"
    using assms(1) by (rule list_all_update)
  show ?thesis
  proof (cases "pc (workers s ! w)")
    case AtClaim
    then show ?thesis
      using assms k
      by (auto simp: claim_loop_length consistent_def intro!: upd split: list.splits)
  next
    case AtCandidateCheck
    then show ?thesis
      using assms k by (auto simp: consistent_def intro!: upd split: option.splits)
  next
    case AtRecord
    then show ?thesis
      using assms k by (auto simp: consistent_def intro!: upd split: list.splits)
  next
    case AtRelease
    then show ?thesis
      using assms k by (auto simp: consistent_def list_remove_def intro!: upd split: sum.splits)
  qed (use assms k in \<open>auto simp: consistent_def intro!: upd\<close>)
qed

lemma consistent_step:
  assumes "list_all consistent (workers s)"
  shows "list_all consistent (workers (step e s))"
proof (cases e)
  case (Tick w)
  then show ?thesis
    using assms consistent_tick [of s w] by (cases "w < length (workers s)") simp_all
next
  case (WaitReturns w rc)
  show ?thesis
  proof (cases "w < length (workers s)")
    case True
    then have "consistent (workers s ! w)"
      using assms by (simp add: list_all_nth)
    then show ?thesis
      using WaitReturns assms True
      by (auto simp: wait_returns_def Let_def consistent_def intro!: list_all_update)
  next
    case False
    then show ?thesis using WaitReturns assms by (simp add: wait_returns_def)
  qed
qed (use assms in simp_all)

lemma consistent_run:
  "list_all consistent (workers s) \<Longrightarrow> list_all consistent (workers (run es s))"
  by (induction es arbitrary: s) (simp_all add: consistent_step)

lemma consistent_init: "list_all consistent (workers (init win J q d ds))"
  by (simp add: init_def list_all_length consistent_def worker0_def)

lemma in_flight_split:
  assumes "w < length (workers s)"
  obtains A where "cases_in_flight s = A + mset (holds_case (workers s ! w))"
    and "\<And>k' (s'::gtm). workers s' = workers s \<Longrightarrow>
           cases_in_flight (put_worker w k' s') = A + mset (holds_case k')"
proof
  let ?ws = "workers s"
  let ?A = "mset (concat (map holds_case (take w ?ws))) +
            mset (concat (map holds_case (drop (Suc w) ?ws)))"
  have "?ws = take w ?ws @ ?ws ! w # drop (Suc w) ?ws"
    using assms by (rule id_take_nth_drop)
  then have "concat (map holds_case ?ws) =
      concat (map holds_case (take w ?ws)) @ holds_case (?ws ! w) @
      concat (map holds_case (drop (Suc w) ?ws))"
    by (metis concat.simps(2) concat_append list.simps(9) map_append)
  then show "cases_in_flight s = ?A + mset (holds_case (?ws ! w))"
    by (simp add: cases_in_flight_def)
  fix k' and s' :: gtm
  assume "workers s' = ?ws"
  then have "workers (put_worker w k' s') = take w ?ws @ k' # drop (Suc w) ?ws"
    using assms by (simp add: upd_conv_take_nth_drop)
  then show "cases_in_flight (put_worker w k' s') = ?A + mset (holds_case k')"
    by (simp add: cases_in_flight_def)
qed

lemma cases_in_flight_frame [simp]:
  "cases_in_flight (s\<lparr>INTERRUPT := a\<rparr>) = cases_in_flight s"
  "cases_in_flight (s\<lparr>clock := j\<rparr>) = cases_in_flight s"
  by (simp_all add: cases_in_flight_def)

lemma conservation_tick:
  assumes "list_all consistent (workers s)" and "w < length (workers s)"
  shows "mset (map row_test (results (step (Tick w) s))) + cases_in_flight (step (Tick w) s) +
           mset (map test_name (tests (step (Tick w) s))) =
         mset (map row_test (results s)) + cases_in_flight s + mset (map test_name (tests s))"
proof -
  have k: "consistent (workers s ! w)"
    using assms by (rule list_all_nth)
  obtain A where A: "cases_in_flight s = A + mset (holds_case (workers s ! w))"
    and A': "\<And>k' (s'::gtm). workers s' = workers s \<Longrightarrow>
           cases_in_flight (put_worker w k' s') = A + mset (holds_case k')"
    using in_flight_split [OF assms(2)] by blast
  show ?thesis
  proof (cases "pc (workers s ! w)")
    case AtClaim
    then show ?thesis
      using assms(2) k
      by (auto simp: A A' holds_case_def claim_loop_length consistent_def split: list.splits)
  next
    case AtCandidateCheck
    then show ?thesis
      using assms(2) by (auto simp: A A' holds_case_def split: option.splits)
  next
    case AtRecord
    then show ?thesis
      using assms(2) by (auto simp: A A' holds_case_def split: list.splits)
  next
    case AtRelease
    then show ?thesis
      using assms(2) by (auto simp: A A' holds_case_def split: sum.splits)
  next
    case AtWait
    then show ?thesis using assms(2) by simp
  next
    case AtReap
    then show ?thesis using assms(2) by simp
  next
    case Stopped
    then show ?thesis using assms(2) by simp
  next
    case Raised
    then show ?thesis using assms(2) by simp
  qed (use assms(2) in \<open>auto simp: A A' holds_case_def\<close>)
qed

lemma conservation_step:
  assumes "list_all consistent (workers s)"
  shows "mset (map row_test (results (step e s))) + cases_in_flight (step e s) +
           mset (map test_name (tests (step e s))) =
         mset (map row_test (results s)) + cases_in_flight s + mset (map test_name (tests s))"
proof (cases e)
  case (Tick w)
  then show ?thesis
    using assms conservation_tick [of s w] by (cases "w < length (workers s)") simp_all
next
  case (WaitReturns w rc)
  show ?thesis
  proof (cases "w < length (workers s)")
    case True
    obtain A where A: "cases_in_flight s = A + mset (holds_case (workers s ! w))"
      and A': "\<And>k' (s'::gtm). workers s' = workers s \<Longrightarrow>
           cases_in_flight (put_worker w k' s') = A + mset (holds_case k')"
      using in_flight_split [OF True] by blast
    show ?thesis
      using WaitReturns True by (auto simp: wait_returns_def Let_def A A' holds_case_def)
  next
    case False
    then show ?thesis using WaitReturns by (simp add: wait_returns_def)
  qed
qed simp_all

lemma conservation_run:
  assumes "list_all consistent (workers s)"
  shows "mset (map row_test (results (run es s))) + cases_in_flight (run es s) +
           mset (map test_name (tests (run es s))) =
         mset (map row_test (results s)) + cases_in_flight s + mset (map test_name (tests s))"
  using assms
proof (induction es arbitrary: s)
  case Nil
  then show ?case by simp
next
  case (Cons e es)
  then show ?case
    using consistent_step [of s e] conservation_step [of s e] by simp
qed

lemma cases_in_flight_init: "cases_in_flight (init win J q d ds) = {#}"
  by (induction J) (simp_all add: cases_in_flight_def init_def holds_case_def worker0_def)


lemma results_tick:
  assumes "v < length (workers s)" and "pc (workers s ! v) \<noteq> AtRecord"
  shows "results (step (Tick v) s) = results s"
  using assms
  by (cases "pc (workers s ! v)")
     (simp_all add: claim_loop_length split: list.splits option.splits sum.splits)

lemma results_step:
  assumes "results (step e s) \<noteq> results s"
  shows "\<exists>v. e = Tick v \<and> v < length (workers s) \<and> pc (workers s ! v) = AtRecord"
proof (cases e)
  case (Tick v)
  then show ?thesis
    using assms results_tick [of v s] by (cases "v < length (workers s)") auto
next
  case (WaitReturns v rc)
  then show ?thesis using assms by (simp add: wait_returns_def Let_def split: if_splits)
qed (use assms in simp_all)

lemma record_then_release:
  assumes "consistent k" and "w < length (workers s)" and "k = workers s ! w"
    and "pc k = AtRecord" and "running_tests s \<noteq> []"
  shows "results (step (Tick w) s) = results s @
           [\<lparr>row_test = test_name (test k), row_status = status_of (ret k),
             row_time = clock s - start k, row_log = log_of (working_dir (test k))\<rparr>] \<and>
         pc (workers (step (Tick w) s) ! w) = AtRelease \<and>
         running_groups (workers (step (Tick w) s) ! w) = [group_of (test_name (test k))] \<and>
         results (run [Tick w, Tick w] s) = results (step (Tick w) s) \<and>
         pc (workers (run [Tick w, Tick w] s) ! w) = AtInterruptCheck \<and>
         running_groups (workers (run [Tick w, Tick w] s) ! w) = []"
  using assms by (auto simp: consistent_def list_remove_def split: list.splits)

text \<open>
  Claim C3, as stated, at a concrete run. One worker runs \<open>A.t1\<close>, which passes.
  After the statement that appends the row (line 252, inside \<^verbatim>\<open>_run_test\<close>) the
  worker is before line 281 and its list still holds the group \<open>A\<close>: the row is
  appended before the group is released, not after. One statement earlier there was
  no row.
\<close>

text \<open>
  Claim C3, as stated, at a concrete run. One worker runs \<open>A.t1\<close>, which passes.
  After the statement that appends the row (line 252, inside \<^verbatim>\<open>_run_test\<close>) the
  worker is before line 281 and its list still holds the group \<open>A\<close>: the row is
  appended before the group is released, not after. One statement earlier there was
  no row.
\<close>

theorem row_appended_while_group_held:
  "results (run (replicate 9 (Tick 0) @ [WaitReturns 0 0, Tick 0, Tick 0])
      (init False 1 [listed ''bin'' ''/out'' 0 ''A.t1''] ''/'' {''/''}))
     = [\<lparr>row_test = ''A.t1'', row_status = Passed, row_time = 0,
         row_log = ''/out/A.t1/run.log''\<rparr>] \<and>
   running_groups (workers (run (replicate 9 (Tick 0) @ [WaitReturns 0 0, Tick 0, Tick 0])
      (init False 1 [listed ''bin'' ''/out'' 0 ''A.t1''] ''/'' {''/''})) ! 0) = [''A''] \<and>
   pc (workers (run (replicate 9 (Tick 0) @ [WaitReturns 0 0, Tick 0, Tick 0])
      (init False 1 [listed ''bin'' ''/out'' 0 ''A.t1''] ''/'' {''/''})) ! 0) = AtRelease \<and>
   results (run (replicate 9 (Tick 0) @ [WaitReturns 0 0, Tick 0])
      (init False 1 [listed ''bin'' ''/out'' 0 ''A.t1''] ''/'' {''/''})) = []"
  by code_simp

text \<open>
  Claim C3, amended. In every run from the initial state, whatever the interleaving:
  the names of the rows, of the cases the workers have in hand and of the cases still
  queued are together exactly the names that were queued at the start, so a case that
  is no longer queued or in hand has exactly one row; only the statement of line 252,
  which a retried attempt never reaches, changes the table; and that statement appends
  the row of the case while the worker still holds the group of the case, which the
  next statement of the worker (line 282) releases, adding no row.
\<close>

theorem one_row_per_case_before_release:
  assumes "s = run es (init win J q d ds)"
  shows "mset (map row_test (results s)) + cases_in_flight s + mset (map test_name (tests s)) =
           mset (map test_name q) \<and>
         (results (step e s) \<noteq> results s \<longrightarrow>
            (\<exists>v. e = Tick v \<and> v < J \<and> pc (workers s ! v) = AtRecord)) \<and>
         (w < J \<and> pc (workers s ! w) = AtRecord \<longrightarrow>
            results (step (Tick w) s) = results s @
              [\<lparr>row_test = test_name (test (workers s ! w)),
                row_status = status_of (ret (workers s ! w)),
                row_time = clock s - start (workers s ! w),
                row_log = log_of (working_dir (test (workers s ! w)))\<rparr>] \<and>
            pc (workers (step (Tick w) s) ! w) = AtRelease \<and>
            running_groups (workers (step (Tick w) s) ! w) =
              [group_of (test_name (test (workers s ! w)))] \<and>
            results (run [Tick w, Tick w] s) = results (step (Tick w) s) \<and>
            pc (workers (run [Tick w, Tick w] s) ! w) = AtInterruptCheck \<and>
            running_groups (workers (run [Tick w, Tick w] s) ! w) = [])"
proof -
  have len: "length (workers s) = J"
    using assms by (simp add: init_def)
  have cons: "list_all consistent (workers s)"
    using assms consistent_run [OF consistent_init] by simp
  have "mset (map row_test (results s)) + cases_in_flight s + mset (map test_name (tests s)) =
      mset (map test_name q)"
    using conservation_run [OF consistent_init, of es win J q d ds] assms
    by (simp add: cases_in_flight_init) (simp add: init_def)
  moreover have "results (step e s) \<noteq> results s \<longrightarrow>
      (\<exists>v. e = Tick v \<and> v < J \<and> pc (workers s ! v) = AtRecord)"
    using results_step [of e s] len by simp
  moreover have "w < J \<and> pc (workers s ! w) = AtRecord \<longrightarrow>
            results (step (Tick w) s) = results s @
              [\<lparr>row_test = test_name (test (workers s ! w)),
                row_status = status_of (ret (workers s ! w)),
                row_time = clock s - start (workers s ! w),
                row_log = log_of (working_dir (test (workers s ! w)))\<rparr>] \<and>
            pc (workers (step (Tick w) s) ! w) = AtRelease \<and>
            running_groups (workers (step (Tick w) s) ! w) =
              [group_of (test_name (test (workers s ! w)))] \<and>
            results (run [Tick w, Tick w] s) = results (step (Tick w) s) \<and>
            pc (workers (run [Tick w, Tick w] s) ! w) = AtInterruptCheck \<and>
            running_groups (workers (run [Tick w, Tick w] s) ! w) = []"
  proof
    assume a: "w < J \<and> pc (workers s ! w) = AtRecord"
    then have w: "w < length (workers s)" and p: "pc (workers s ! w) = AtRecord"
      using len by simp_all
    have k: "consistent (workers s ! w)"
      using cons w by (rule list_all_nth)
    obtain A where "attempts_open s =
        A + (if between_put_and_get (workers s ! w)
             then {#test_name (test (workers s ! w))#} else {#})"
      using attempts_open_split [OF w] by blast
    then have "0 < size (attempts_open s)"
      using p by (simp add: between_put_and_get_def)
    then have "running_tests s \<noteq> []"
      using queue_of_init [of es win J q d ds] assms by auto
    then show "results (step (Tick w) s) = results s @
              [\<lparr>row_test = test_name (test (workers s ! w)),
                row_status = status_of (ret (workers s ! w)),
                row_time = clock s - start (workers s ! w),
                row_log = log_of (working_dir (test (workers s ! w)))\<rparr>] \<and>
            pc (workers (step (Tick w) s) ! w) = AtRelease \<and>
            running_groups (workers (step (Tick w) s) ! w) =
              [group_of (test_name (test (workers s ! w)))] \<and>
            results (run [Tick w, Tick w] s) = results (step (Tick w) s) \<and>
            pc (workers (run [Tick w, Tick w] s) ! w) = AtInterruptCheck \<and>
            running_groups (workers (run [Tick w, Tick w] s) ! w) = []"
      using record_then_release [OF k w refl p] by blast
  qed
  ultimately show ?thesis by blast
qed

text \<open>
  An instance: \<open>A.t1\<close> fails once and passes on its retry. The one row is Passed, the
  group \<open>A\<close> is still held when it is appended, and released by the next statement.
\<close>

theorem one_row_per_case_before_release_witness:
  "results (step (Tick 0)
      (run (replicate 9 (Tick 0) @ [WaitReturns 0 1, Tick 0] @ replicate 5 (Tick 0) @
            [WaitReturns 0 0, Tick 0])
         (init False 1 [listed ''bin'' ''/out'' 1 ''A.t1''] ''/'' {''/''})))
     = [\<lparr>row_test = ''A.t1'', row_status = Passed, row_time = 0,
         row_log = ''/out/A.t1/run.log''\<rparr>] \<and>
   running_groups (workers (step (Tick 0)
      (run (replicate 9 (Tick 0) @ [WaitReturns 0 1, Tick 0] @ replicate 5 (Tick 0) @
            [WaitReturns 0 0, Tick 0])
         (init False 1 [listed ''bin'' ''/out'' 1 ''A.t1''] ''/'' {''/''}))) ! 0) = [''A''] \<and>
   running_groups (workers (run [Tick 0, Tick 0]
      (run (replicate 9 (Tick 0) @ [WaitReturns 0 1, Tick 0] @ replicate 5 (Tick 0) @
            [WaitReturns 0 0, Tick 0])
         (init False 1 [listed ''bin'' ''/out'' 1 ''A.t1''] ''/'' {''/''}))) ! 0) = []"
proof -
  define es where "es = replicate 9 (Tick 0) @ [WaitReturns 0 1, Tick 0] @ replicate 5 (Tick 0) @
            [WaitReturns 0 0, Tick 0]"
  define S where "S = run es (init False 1 [listed ''bin'' ''/out'' 1 ''A.t1''] ''/'' {''/''})"
  have S: "pc (workers S ! 0) = AtRecord" "results S = []"
    "test_name (test (workers S ! 0)) = ''A.t1''" "status_of (ret (workers S ! 0)) = Passed"
    "clock S - start (workers S ! 0) = 0"
    "log_of (working_dir (test (workers S ! 0))) = ''/out/A.t1/run.log''"
    "group_of (test_name (test (workers S ! 0))) = ''A''"
    unfolding S_def es_def by code_simp+
  have "results (step (Tick 0) S)
     = [\<lparr>row_test = ''A.t1'', row_status = Passed, row_time = 0,
         row_log = ''/out/A.t1/run.log''\<rparr>] \<and>
     running_groups (workers (step (Tick 0) S) ! 0) = [''A''] \<and>
     running_groups (workers (run [Tick 0, Tick 0] S) ! 0) = []"
    using one_row_per_case_before_release [OF S_def, of "Tick 0" 0] S
    by (simp del: run_Cons run_Nil step.simps)
  then show ?thesis
    unfolding S_def es_def .
qed

end
